theory Spec2Isabelle
  imports Complex_Main "HOL-Library.Word" "HOL-Library.Log_Nat"
begin

section \<open>Data model\<close>

text \<open>
  The request layer of \<^verbatim>\<open>index.js\<close>. The request descriptor is the normalised
  \<^verbatim>\<open>opts\<close> object; \<^verbatim>\<open>'e\<close> is the type of the errors the transport raises.
  Only the fields that the engine and the two adapters read are kept.
  A nullable JavaScript string is an \<open>option\<close>.
\<close>

type_synonym urlstr = string

datatype body =
    BStream bool      \<comment> \<open>a readable stream; the flag says whether it has \<^verbatim>\<open>getBoundary\<close>\<close>
  | BString string
  | BBuffer string
  | BPlainObj "(string \<times> string) list"
  | BOther            \<comment> \<open>any other value: a number, an array, a class instance\<close>

record 'e opts =
  protocol :: "string option"
  href :: "urlstr option"
  path :: string
  method_name :: string
  followRedirect :: bool
  json :: bool
  form :: bool
  body :: "body option"
  encoding_null :: bool
  retries :: "int \<Rightarrow> 'e \<Rightarrow> real"
  gotTimeout :: "nat option"

text \<open>What \<^verbatim>\<open>urlLib.parse\<close> returns, as far as \<^verbatim>\<open>Object.assign\<close> copies it into the descriptor.\<close>

record parsed =
  p_protocol :: "string option"
  p_auth :: "string option"
  p_href :: "urlstr option"
  p_path :: string

datatype json_value =
    JNull | JBool bool | JNum int | JStr string
  | JArr "json_value list" | JObj "(string \<times> json_value) list"

datatype rbody = Undefined | Text string | Buffer string | Parsed json_value

text \<open>
  The response object of the transport. The engine writes \<^verbatim>\<open>url\<close> and \<^verbatim>\<open>requestUrl\<close>,
  wraps the body stream in the decompressing reader, and the buffered adapter writes \<^verbatim>\<open>body\<close>.
\<close>

record response =
  statusCode :: int
  location :: "string option"   \<comment> \<open>\<^verbatim>\<open>res.headers.location\<close>, \<open>None\<close> when the key is absent\<close>
  url :: urlstr
  res_requestUrl :: urlstr
  decompressed :: bool
  res_body :: rbody

datatype 'e error =
    UnsupportedProtocolError "'e opts"
  | MaxRedirectsError int "'e opts"
  | RequestError 'e "'e opts"
  | ReadError string "'e opts"
  | ParseError int "'e opts" rbody
  | HTTPError int "'e opts"

text \<open>
  An exception: a \<^verbatim>\<open>TypeError\<close>, a plain \<^verbatim>\<open>Error\<close>, or an error of the taxonomy thrown by
  an emitter that has no \<^verbatim>\<open>error\<close> listener.
\<close>

datatype 'e exn = TypeError string | Error string | Thrown "'e error"

text \<open>
  The libraries the file requires are parameters: \<^verbatim>\<open>is-redirect\<close>, \<^verbatim>\<open>is-retry-allowed\<close>,
  the \<^verbatim>\<open>url\<close> module, \<^verbatim>\<open>Buffer.from(_, 'binary').toString()\<close>, \<^verbatim>\<open>JSON\<close>, \<^verbatim>\<open>querystring\<close>,
  \<^verbatim>\<open>url-parse-lax\<close> and \<^verbatim>\<open>String.prototype.toUpperCase\<close>. \<open>random iter\<close> is the number
  that \<^verbatim>\<open>Math.random()\<close> returns when the default retry policy is asked about attempt
  \<open>iter\<close>, a double from 0 up to but not including 1. \<open>request_throws\<close> is the exception that \<^verbatim>\<open>http.request\<close> or \<^verbatim>\<open>https.request\<close> throws
  synchronously on a descriptor it refuses (a path with a space in it, for one), \<open>None\<close>
  when it accepts the descriptor and returns the request object.
\<close>

record 'e lib =
  isRedirect :: "int \<Rightarrow> bool"
  isRetryAllowed :: "'e \<Rightarrow> bool"
  format :: "'e opts \<Rightarrow> urlstr"
  resolve :: "urlstr \<Rightarrow> string \<Rightarrow> urlstr"
  parse :: "urlstr \<Rightarrow> parsed"
  bufferString :: "string \<Rightarrow> string"
  JSON_parse :: "string \<Rightarrow> json_value option"
  JSON_stringify :: "(string \<times> string) list \<Rightarrow> string"
  querystring_stringify :: "(string \<times> string) list \<Rightarrow> string"
  urlParseLax :: "string \<Rightarrow> parsed"
  toUpperCase :: "string \<Rightarrow> string"
  random :: "int \<Rightarrow> real"
  request_throws :: "'e opts \<Rightarrow> 'e exn option"

section \<open>The request engine: \<^verbatim>\<open>requestAsEventEmitter\<close>\<close>

text \<open>
  Events published on the emitter \<^verbatim>\<open>ee\<close>. A request object is identified by the number
  of the \<^verbatim>\<open>fn.request\<close> call that created it. An \<^verbatim>\<open>error\<close> event carries the response as
  its third argument when the source passes one.
\<close>

datatype 'e event =
    ERequest nat
  | EResponse nat response
  | ERedirect nat response "'e opts"
  | EError "'e error" "response option"

text \<open>Callbacks queued with \<^verbatim>\<open>setImmediate\<close>; they run first in, first out.\<close>

datatype imm =
    EmitRequest nat
  | EmitResponse nat string response   \<comment> \<open>request number, \<^verbatim>\<open>req.method\<close>, \<^verbatim>\<open>res\<close>\<close>

text \<open>
  The closure variables of \<^verbatim>\<open>requestAsEventEmitter\<close>, and what the call has handed to the
  platform: the requests whose response callback has not been called (\<open>inflight\<close>), the
  requests whose \<^verbatim>\<open>once('error')\<close> listener is still registered (\<open>armed\<close>), the timers set
  by \<^verbatim>\<open>setTimeout\<close>, the queue of \<^verbatim>\<open>setImmediate\<close> callbacks, and the events emitted so far.
  \<open>listening\<close> says whether an \<^verbatim>\<open>error\<close> listener is attached to \<^verbatim>\<open>ee\<close>; an \<^verbatim>\<open>error\<close> event
  emitted without one is thrown by the emitter, and \<open>uncaught\<close> records it. \<open>crashed\<close>
  records the exceptions that the transport call of line 39 has thrown: nothing in the
  file catches them, so they leave \<^verbatim>\<open>get\<close> and the callback that called it.
\<close>

record 'e engine =
  requestUrl :: urlstr
  redirectCount :: nat
  retryCount :: nat
  redirectUrl :: "urlstr option"
  nextReq :: nat
  inflight :: "(nat \<times> 'e opts) list"
  armed :: "(nat \<times> 'e opts) list"
  timers :: "(real \<times> 'e opts) list"
  immediates :: "imm list"
  events :: "'e event list"
  listening :: bool
  uncaught :: "'e error list"
  crashed :: "'e exn list"

definition emit :: "'e event \<Rightarrow> 'e engine \<Rightarrow> 'e engine" where
  "emit ev s = s\<lparr>events := events s @ [ev]\<rparr>"

definition emit_error :: "'e error \<Rightarrow> response option \<Rightarrow> 'e engine \<Rightarrow> 'e engine" where
  "emit_error err r s =
     (emit (EError err r) s)\<lparr>uncaught := (if listening s then uncaught s else uncaught s @ [err])\<rparr>"

text \<open>\<^verbatim>\<open>a || b\<close> on a string that may be undefined: the empty string is falsy.\<close>

definition or_else :: "string option \<Rightarrow> string \<Rightarrow> string" where
  "or_else a b = (case a of None \<Rightarrow> b | Some x \<Rightarrow> (if x = [] then b else x))"

definition supported :: "'e opts \<Rightarrow> bool" where
  "supported opts = (protocol opts = Some ''http:'' \<or> protocol opts = Some ''https:'')"

text \<open>
  \<^verbatim>\<open>get\<close> (lines 31-90). The protocol guard emits and returns. Otherwise the transport is
  called: when it throws, the exception ends \<^verbatim>\<open>get\<close> with nothing registered or queued;
  when it returns, it has created request number \<open>nextReq\<close> with its response callback, the
  error listener is registered on it, and the \<^verbatim>\<open>request\<close> event is queued with
  \<^verbatim>\<open>setImmediate\<close>. A configured
  \<^verbatim>\<open>gotTimeout\<close> (lines 83-85) makes \<^verbatim>\<open>timed-out\<close> raise an error on the request when a
  deadline passes: it is one of the errors the platform raises.
\<close>

definition get :: "'e lib \<Rightarrow> 'e opts \<Rightarrow> 'e engine \<Rightarrow> 'e engine" where
  "get L opts s =
     (if \<not> supported opts then emit_error (UnsupportedProtocolError opts) None s
      else case request_throws L opts of
             Some x \<Rightarrow> s\<lparr>crashed := crashed s @ [x]\<rparr>
           | None \<Rightarrow>
               s\<lparr>nextReq := Suc (nextReq s),
                 inflight := inflight s @ [(nextReq s, opts)],
                 armed := armed s @ [(nextReq s, opts)],
                 immediates := immediates s @ [EmitRequest (nextReq s)]\<rparr>)"

text \<open>\<^verbatim>\<open>Object.assign({}, opts, urlLib.parse(redirectUrl))\<close> (line 56).\<close>

definition redirected :: "'e opts \<Rightarrow> parsed \<Rightarrow> 'e opts" where
  "redirected opts p = opts\<lparr>protocol := p_protocol p, href := p_href p, path := p_path p\<rparr>"

text \<open>The condition of line 45.\<close>

definition follows :: "'e lib \<Rightarrow> 'e opts \<Rightarrow> response \<Rightarrow> bool" where
  "follows L opts res =
     (isRedirect L (statusCode res) \<and> followRedirect opts \<and> location res \<noteq> None \<and>
      (method_name opts = ''GET'' \<or> method_name opts = ''HEAD''))"

definition target :: "'e lib \<Rightarrow> 'e opts \<Rightarrow> response \<Rightarrow> urlstr" where
  "target L opts res =
     resolve L (format L opts) (bufferString L (case location res of Some l \<Rightarrow> l | None \<Rightarrow> []))"

text \<open>Lines 42-43: \<^verbatim>\<open>res.url = redirectUrl || requestUrl; res.requestUrl = requestUrl\<close>.\<close>

definition stamp :: "'e engine \<Rightarrow> response \<Rightarrow> response" where
  "stamp s res = res\<lparr>url := or_else (redirectUrl s) (requestUrl s), res_requestUrl := requestUrl s\<rparr>"

text \<open>The response callback of the transport (lines 39-70), for request \<open>n\<close> made with \<open>opts\<close>.\<close>

definition on_response :: "'e lib \<Rightarrow> nat \<Rightarrow> 'e opts \<Rightarrow> response \<Rightarrow> 'e engine \<Rightarrow> 'e engine" where
  "on_response L n opts res0 s =
     (let res = stamp s res0
      in if follows L opts res
         then (let s1 = s\<lparr>redirectCount := redirectCount s + 1\<rparr>
               in if redirectCount s1 > 10
                  then emit_error (MaxRedirectsError (statusCode res) opts) (Some res) s1
                  else (let ru = target L opts res;
                            redirectOpts = redirected opts (parse L ru)
                        in get L redirectOpts
                             (emit (ERedirect n res redirectOpts) (s1\<lparr>redirectUrl := Some ru\<rparr>))))
         else s\<lparr>immediates := immediates s @ [EmitResponse n (method_name opts) res]\<rparr>)"

text \<open>The \<^verbatim>\<open>error\<close> handler of the request (lines 72-81). A number is truthy when it is not 0.\<close>

definition on_error :: "'e opts \<Rightarrow> 'e \<Rightarrow> 'e engine \<Rightarrow> 'e engine" where
  "on_error opts err s =
     (let s1 = s\<lparr>retryCount := retryCount s + 1\<rparr>;
          backoff = retries opts (int (retryCount s1)) err
      in if backoff \<noteq> 0 then s1\<lparr>timers := timers s1 @ [(backoff, opts)]\<rparr>
         else emit_error (RequestError err opts) None s1)"

text \<open>The two \<^verbatim>\<open>setImmediate\<close> callbacks (lines 65-69 and 87-89).\<close>

fun run_imm :: "imm \<Rightarrow> 'e engine \<Rightarrow> 'e engine" where
  "run_imm (EmitRequest n) s = emit (ERequest n) s"
| "run_imm (EmitResponse n m res) s =
     emit (EResponse n (if m \<noteq> ''HEAD'' then res\<lparr>decompressed := True\<rparr> else res)) s"

text \<open>
  What the platform does next is the input of the engine: it runs the oldest queued
  immediate, the transport calls the response callback of request \<open>n\<close>, an \<^verbatim>\<open>error\<close> event is
  raised on request \<open>n\<close>, or the \<open>k\<close>-th pending timer fires. The response callback of a
  request runs at most once, and so does its error listener, which is registered with
  \<^verbatim>\<open>once\<close>; nothing in the source unregisters the listener when the response arrives. An
  action that names no pending callback or timer changes nothing.
\<close>

datatype 'e action = Tick | Respond nat response | Fail nat 'e | Timeout nat

definition answered :: "nat \<Rightarrow> 'e engine \<Rightarrow> 'e engine" where
  "answered n s = s\<lparr>inflight := filter (\<lambda>(m, _). m \<noteq> n) (inflight s)\<rparr>"

definition disarmed :: "nat \<Rightarrow> 'e engine \<Rightarrow> 'e engine" where
  "disarmed n s = s\<lparr>armed := filter (\<lambda>(m, _). m \<noteq> n) (armed s)\<rparr>"

fun step :: "'e lib \<Rightarrow> 'e action \<Rightarrow> 'e engine \<Rightarrow> 'e engine" where
  "step L Tick s =
     (case immediates s of [] \<Rightarrow> s | i # rest \<Rightarrow> run_imm i (s\<lparr>immediates := rest\<rparr>))"
| "step L (Respond n res) s =
     (case map_of (inflight s) n of None \<Rightarrow> s
      | Some opts \<Rightarrow> on_response L n opts res (answered n s))"
| "step L (Fail n err) s =
     (case map_of (armed s) n of None \<Rightarrow> s
      | Some opts \<Rightarrow> on_error opts err (disarmed n s))"
| "step L (Timeout k) s =
     (if k < length (timers s)
      then get L (snd (timers s ! k)) (s\<lparr>timers := take k (timers s) @ drop (Suc k) (timers s)\<rparr>)
      else s)"

fun run :: "'e lib \<Rightarrow> 'e engine \<Rightarrow> 'e action list \<Rightarrow> 'e engine" where
  "run L s [] = s"
| "run L s (a # as) = run L (step L a s) as"

text \<open>
  \<^verbatim>\<open>requestAsEventEmitter\<close> (lines 22-94): the state when the synchronous call is over.
  No listener can be attached to \<^verbatim>\<open>ee\<close> before it is returned. \<open>thrown\<close> lists the
  exceptions that have left the code of the engine: an exception of the first call of
  \<^verbatim>\<open>get\<close> (line 92) leaves \<^verbatim>\<open>requestAsEventEmitter\<close> itself, and \<^verbatim>\<open>ee\<close> is not returned.
\<close>

definition requestUrl_of :: "'e lib \<Rightarrow> 'e opts \<Rightarrow> urlstr" where
  "requestUrl_of L opts = or_else (href opts) (resolve L (format L opts) (path opts))"

definition requestAsEventEmitter :: "'e lib \<Rightarrow> 'e opts \<Rightarrow> 'e engine" where
  "requestAsEventEmitter L opts =
     get L opts \<lparr>requestUrl = requestUrl_of L opts, redirectCount = 0, retryCount = 0,
                 redirectUrl = None, nextReq = 0, inflight = [], armed = [], timers = [],
                 immediates = [], events = [], listening = False, uncaught = [],
                 crashed = []\<rparr>"

definition thrown :: "'e engine \<Rightarrow> 'e exn list" where
  "thrown s = map Thrown (uncaught s) @ crashed s"

section \<open>The default retry policy (lines 290-302)\<close>

text \<open>
  \<^verbatim>\<open>1 << iter\<close>: both operands become 32-bit integers, the shift count is taken modulo 32,
  and the result is read as a signed 32-bit integer.
\<close>

definition shl32 :: "int \<Rightarrow> int \<Rightarrow> int" where
  "shl32 a b = sint (push_bit (nat (b mod 32)) (word_of_int a :: 32 word))"

text \<open>
  A number is a double: a real of the form \<open>m * 2 ^ e\<close> with \<open>\<bar>m\<bar> < 2 ^ 53\<close> and
  \<open>- 1074 \<le> e\<close>. \<open>double\<close> rounds a real to the nearest double, a tie to the even
  significand, as the multiplication and the addition of the language do with their exact
  result. \<open>ilog2 x\<close> is the integer part of the binary logarithm of a positive \<open>x\<close>. The
  overflow to \<^verbatim>\<open>Infinity\<close> is left out: no number of the policy reaches \<open>2 ^ 1024\<close>.
\<close>

definition round_even :: "real \<Rightarrow> int" where
  "round_even q =
     (let f = \<lfloor>q\<rfloor>; d = q - of_int f
      in if d < 1 / 2 then f else if 1 / 2 < d then f + 1 else if even f then f else f + 1)"

definition ilog2 :: "real \<Rightarrow> int" where
  "ilog2 x =
     (if 1 \<le> x then bitlen \<lfloor>x\<rfloor> - 1
      else (let k = bitlen \<lfloor>1 / x\<rfloor> in if x * 2 ^ nat (k - 1) = 1 then 1 - k else - k))"

definition scale :: "int \<Rightarrow> real" where
  "scale e = (if 0 \<le> e then 2 ^ nat e else 1 / 2 ^ nat (- e))"

definition double :: "real \<Rightarrow> real" where
  "double x =
     (if x = 0 then 0
      else (let e = max (ilog2 \<bar>x\<bar> - 52) (- 1074)
            in of_int (round_even (x / scale e)) * scale e))"

definition fmul :: "real \<Rightarrow> real \<Rightarrow> real" where
  "fmul a b = double (a * b)"

definition fadd :: "real \<Rightarrow> real \<Rightarrow> real" where
  "fadd a b = double (a + b)"

text \<open>
  The policy that line 293 installs for the configured count \<open>n\<close>. The returned number is
  \<^verbatim>\<open>((1 << iter) * 1000) + noise\<close> in the arithmetic of doubles.
\<close>

definition default_retries :: "'e lib \<Rightarrow> int \<Rightarrow> int \<Rightarrow> 'e \<Rightarrow> real" where
  "default_retries L n iter err =
     (if iter > n \<or> \<not> isRetryAllowed L err then 0
      else (let noise = fmul (random L iter) 100
            in fadd (fmul (real_of_int (shl32 1 iter)) 1000) noise))"

section \<open>Argument normalisation: \<^verbatim>\<open>normalizeArguments\<close>\<close>

datatype 'e retry_option = Count int | Policy "int \<Rightarrow> 'e \<Rightarrow> real"

text \<open>
  An options object as the caller writes it; a key that is absent is \<open>None\<close>. The
  \<^verbatim>\<open>url\<close> argument is a string, an object of the same shape, \<^verbatim>\<open>null\<close>, or a value whose
  \<^verbatim>\<open>typeof\<close> is neither \<^verbatim>\<open>string\<close> nor \<^verbatim>\<open>object\<close>.
\<close>

record 'e options =
  o_protocol :: "string option"
  o_auth :: "string option"
  o_href :: "urlstr option"
  o_path :: "string option"
  o_method :: "string option"
  o_followRedirect :: "bool option"
  o_json :: "bool option"
  o_form :: "bool option"
  o_body :: "body option"
  o_encoding_null :: "bool option"
  o_retries :: "'e retry_option option"
  o_timeout :: "nat option"

datatype 'e jsurl = UrlString string | UrlObject "'e options" | UrlNull | UrlOther string

definition no_options :: "'e options" where
  "no_options =
     \<lparr>o_protocol = None, o_auth = None, o_href = None, o_path = None, o_method = None,
      o_followRedirect = None, o_json = None, o_form = None, o_body = None,
      o_encoding_null = None, o_retries = None, o_timeout = None\<rparr>"

definition nonempty :: "string option \<Rightarrow> bool" where
  "nonempty a = (case a of None \<Rightarrow> False | Some x \<Rightarrow> x \<noteq> [])"

definition unix_prefix :: "string \<Rightarrow> string" where
  "unix_prefix u = (if take 5 u = ''unix:'' then ''http://'' @ u else u)"

text \<open>Lines 203-214: the \<^verbatim>\<open>url\<close> argument as an object, or the exception.\<close>

definition url_object :: "'e lib \<Rightarrow> 'e jsurl \<Rightarrow> 'e exn + 'e options" where
  "url_object L u =
     (case u of
        UrlOther t \<Rightarrow> Inl (TypeError (''Parameter `url` must be a string or object, not '' @ t))
      | UrlNull \<Rightarrow> Inl (TypeError ''Cannot read property 'protocol' of null'')
      | UrlObject obj \<Rightarrow> Inr obj
      | UrlString str \<Rightarrow>
          (let p = urlParseLax L (unix_prefix str)
           in if nonempty (p_auth p)
              then Inl (Error ''Basic authentication must be done with auth option'')
              else Inr (no_options\<lparr>o_protocol := p_protocol p, o_auth := p_auth p,
                                   o_href := p_href p, o_path := Some (p_path p)\<rparr>)))"

text \<open>\<^verbatim>\<open>Object.assign\<close> of one key: the later source wins when it has the key.\<close>

definition later :: "'a option \<Rightarrow> 'a option \<Rightarrow> 'a option" where
  "later a b = (case b of None \<Rightarrow> a | Some x \<Rightarrow> Some x)"

text \<open>
  Lines 216-226. The sources are the defaults, \<^verbatim>\<open>url\<close>, the protocol and \<^verbatim>\<open>opts\<close>, in this
  order.
\<close>

definition assign :: "'e options \<Rightarrow> 'e options \<Rightarrow> 'e options" where
  "assign u opts =
     \<lparr>o_protocol = later (Some (or_else (o_protocol u) ''http:'')) (o_protocol opts),
      o_auth = later (o_auth u) (o_auth opts),
      o_href = later (o_href u) (o_href opts),
      o_path = later (later (Some []) (o_path u)) (o_path opts),
      o_method = later (o_method u) (o_method opts),
      o_followRedirect = later (o_followRedirect u) (o_followRedirect opts),
      o_json = later (o_json u) (o_json opts),
      o_form = later (o_form u) (o_form opts),
      o_body = later (o_body u) (o_body opts),
      o_encoding_null = later (o_encoding_null u) (o_encoding_null opts),
      o_retries = later (later (Some (Count 2)) (o_retries u)) (o_retries opts),
      o_timeout = later (o_timeout u) (o_timeout opts)\<rparr>"

definition flag :: "bool option \<Rightarrow> bool" where
  "flag b = (b = Some True)"

fun isStream :: "body \<Rightarrow> bool" where
  "isStream (BStream _) = True"
| "isStream _ = False"

fun isPlainObj :: "body \<Rightarrow> bool" where
  "isPlainObj (BPlainObj _) = True"
| "isPlainObj _ = False"

fun isString :: "body \<Rightarrow> bool" where
  "isString (BString _) = True"
| "isString _ = False"

fun isBuffer :: "body \<Rightarrow> bool" where
  "isBuffer (BBuffer _) = True"
| "isBuffer _ = False"

text \<open>Lines 248-278: the two checks on the body, then its encoding (lines 262-268).\<close>

definition check_body :: "'e options \<Rightarrow> body \<Rightarrow> 'e exn option" where
  "check_body m b =
     (if \<not> isStream b \<and> \<not> isString b \<and> \<not> isBuffer b \<and> \<not> (flag (o_form m) \<or> flag (o_json m))
      then Some (TypeError ''options.body must be a ReadableStream, string, Buffer or plain Object'')
      else if (flag (o_form m) \<or> flag (o_json m)) \<and> \<not> isPlainObj b
      then Some (TypeError
        ''options.body must be a plain Object when options.form or options.json is used'')
      else None)"

definition encode_body :: "'e lib \<Rightarrow> 'e options \<Rightarrow> body \<Rightarrow> body" where
  "encode_body L m b =
     (case b of
        BStream True \<Rightarrow> b
      | BPlainObj kvs \<Rightarrow>
          (if flag (o_form m) then BString (querystring_stringify L kvs)
           else if flag (o_json m) then BString (JSON_stringify L kvs)
           else b)
      | _ \<Rightarrow> b)"

text \<open>Lines 275-313: method, retry policy, redirect mode and timeout of the descriptor.\<close>

definition descriptor :: "'e lib \<Rightarrow> 'e options \<Rightarrow> body option \<Rightarrow> 'e opts" where
  "descriptor L m b =
     \<lparr>protocol = o_protocol m,
      href = o_href m,
      path = (case o_path m of Some p \<Rightarrow> p | None \<Rightarrow> []),
      method_name = toUpperCase L
        (or_else (o_method m) (case b of None \<Rightarrow> ''GET'' | Some _ \<Rightarrow> ''POST'')),
      followRedirect = (case o_followRedirect m of None \<Rightarrow> True | Some f \<Rightarrow> f),
      json = flag (o_json m),
      form = flag (o_form m),
      body = b,
      encoding_null = flag (o_encoding_null m),
      retries = (case o_retries m of
                   Some (Policy f) \<Rightarrow> f
                 | Some (Count n) \<Rightarrow> default_retries L n
                 | None \<Rightarrow> default_retries L 2),
      gotTimeout = (case o_timeout m of Some ms \<Rightarrow> (if ms = 0 then None else Some ms) | None \<Rightarrow> None)\<rparr>"

text \<open>
  \<^verbatim>\<open>normalizeArguments\<close> (lines 202-314). The header defaults, the query string and the
  rewrite of a unix socket path (lines 228-246, 259-273, 280-288) set headers and the path
  only; no exception comes from them on these inputs and nothing below reads what they set.
\<close>

definition normalizeArguments :: "'e lib \<Rightarrow> 'e jsurl \<Rightarrow> 'e options \<Rightarrow> 'e exn + 'e opts" where
  "normalizeArguments L u opts =
     (case url_object L u of
        Inl x \<Rightarrow> Inl x
      | Inr obj \<Rightarrow>
          (let m = assign obj opts
           in case o_body m of
                None \<Rightarrow> Inr (descriptor L m None)
              | Some b \<Rightarrow>
                  (case check_body m b of
                     Some x \<Rightarrow> Inl x
                   | None \<Rightarrow> Inr (descriptor L m (Some (encode_body L m b))))))"

section \<open>The buffered adapter: \<^verbatim>\<open>asPromise\<close> and \<^verbatim>\<open>got\<close>\<close>

text \<open>
  A promise is pending or settled once; a rejection carries the error and the \<^verbatim>\<open>response\<close>
  property that line 136 defines on it.
\<close>

datatype 'e settled = Pending | Resolved response | Rejected "'e exn" "response option"

definition settle :: "'e settled \<Rightarrow> 'e settled \<Rightarrow> 'e settled" where
  "settle outcome p = (case p of Pending \<Rightarrow> outcome | _ \<Rightarrow> p)"






text \<open>\<^verbatim>\<open>ee.on('error', reject)\<close> (line 141).\<close>

definition promise_on_error :: "'e error \<Rightarrow> 'e settled \<Rightarrow> 'e settled" where
  "promise_on_error err p = settle (Rejected (Thrown err) None) p"

record 'e buffered =
  promise :: "'e settled"
  p_engine :: "'e engine option"

text \<open>
  \<^verbatim>\<open>asPromise\<close> (lines 96-143). The executor runs inside \<^verbatim>\<open>new Promise\<close>, which turns an
  exception of the executor into a rejection; the listeners are attached after
  \<^verbatim>\<open>requestAsEventEmitter\<close> has returned.
\<close>

definition asPromise :: "'e lib \<Rightarrow> 'e opts \<Rightarrow> 'e exn + 'e buffered" where
  "asPromise L opts =
     (let s = requestAsEventEmitter L opts
      in case thrown s of
           [] \<Rightarrow> Inr \<lparr>promise = Pending, p_engine = Some (s\<lparr>listening := True\<rparr>)\<rparr>
         | x # _ \<Rightarrow> Inr \<lparr>promise = Rejected x None, p_engine = Some s\<rparr>)"

definition try_catch :: "'x + 'a \<Rightarrow> ('x \<Rightarrow> 'x + 'a) \<Rightarrow> 'x + 'a" where
  "try_catch block handler = (case block of Inl x \<Rightarrow> handler x | Inr v \<Rightarrow> Inr v)"

definition Promise_reject :: "'e exn \<Rightarrow> 'e buffered" where
  "Promise_reject x = \<lparr>promise = Rejected x None, p_engine = None\<rparr>"

text \<open>\<^verbatim>\<open>got\<close> (lines 316-322): \<open>Inl\<close> is an exception that escapes the call.\<close>

definition got :: "'e lib \<Rightarrow> 'e jsurl \<Rightarrow> 'e options \<Rightarrow> 'e exn + 'e buffered" where
  "got L u opts =
     try_catch
       (case normalizeArguments L u opts of
          Inl x \<Rightarrow> Inl x
        | Inr d \<Rightarrow> asPromise L d)
       (\<lambda>err. Inr (Promise_reject err))"

section \<open>The streaming adapter: \<^verbatim>\<open>asStream\<close> and \<^verbatim>\<open>got.stream\<close>\<close>

datatype 'e proxy_event =
    PRequest nat
  | PResponse response
  | PRedirect response "'e opts"
  | PError "'e error" "response option"

record 'e duplex =
  d_engine :: "'e engine"
  writable :: bool
  emitted :: "'e proxy_event list"

text \<open>
  How a call of the streaming entry point ends: an exception escapes it, with the engine
  if \<^verbatim>\<open>requestAsEventEmitter\<close> had been called by then, or it returns the duplex.
\<close>

datatype 'e stream_call = Throws "'e exn" "'e engine option" | Returns "'e duplex"

definition body_truthy :: "body option \<Rightarrow> bool" where
  "body_truthy b = (case b of None \<Rightarrow> False | Some (BString t) \<Rightarrow> t \<noteq> [] | Some _ \<Rightarrow> True)"

text \<open>
  \<^verbatim>\<open>asStream\<close> (lines 145-200). The engine is created on line 160 and its listeners are
  attached on lines 162-197, so an \<^verbatim>\<open>error\<close> event emitted inside \<^verbatim>\<open>requestAsEventEmitter\<close>
  finds no listener and the emitter throws it; an exception of the transport call leaves
  \<^verbatim>\<open>asStream\<close> in the same way.
\<close>

definition asStream :: "'e lib \<Rightarrow> 'e opts \<Rightarrow> 'e stream_call" where
  "asStream L opts =
     (if json opts
      then Throws (Error ''got can not be used as stream when options.json is used'') None
      else (let s = requestAsEventEmitter L opts
            in case thrown s of
                 x # _ \<Rightarrow> Throws x (Some s)
               | [] \<Rightarrow> Returns \<lparr>d_engine = s\<lparr>listening := True\<rparr>,
                                 writable = (\<not> body_truthy (body opts)), emitted = []\<rparr>))"

text \<open>
  The listeners of lines 162-197: each engine event is one event on the duplex. A response
  whose status fails the check of line 188 becomes an \<^verbatim>\<open>error\<close> event.
\<close>

fun proxy_of :: "'e opts \<Rightarrow> 'e event \<Rightarrow> 'e proxy_event" where
  "proxy_of opts (ERequest n) = PRequest n"
| "proxy_of opts (EResponse n res) =
     (let statusCode = statusCode res
      in if statusCode \<noteq> 304 \<and> (statusCode < 200 \<or> statusCode > 299)
         then PError (HTTPError statusCode opts) (Some res)
         else PResponse res)"
| "proxy_of opts (ERedirect n res ropts) = PRedirect res ropts"
| "proxy_of opts (EError err r) = PError err r"

definition stream_listener :: "'e opts \<Rightarrow> 'e event \<Rightarrow> 'e duplex \<Rightarrow> 'e duplex" where
  "stream_listener opts ev d = d\<lparr>emitted := emitted d @ [proxy_of opts ev]\<rparr>"

text \<open>One action of the platform on a returned duplex: the engine moves, its listeners run.\<close>

definition stream_step :: "'e lib \<Rightarrow> 'e opts \<Rightarrow> 'e action \<Rightarrow> 'e duplex \<Rightarrow> 'e duplex" where
  "stream_step L opts a d =
     (let s = step L a (d_engine d)
      in fold (stream_listener opts) (drop (length (events (d_engine d))) (events s))
           (d\<lparr>d_engine := s\<rparr>))"

text \<open>\<^verbatim>\<open>got.stream\<close> (line 337).\<close>

definition got_stream :: "'e lib \<Rightarrow> 'e jsurl \<Rightarrow> 'e options \<Rightarrow> 'e stream_call" where
  "got_stream L u opts =
     (case normalizeArguments L u opts of
        Inl x \<Rightarrow> Throws x None
      | Inr d \<Rightarrow> asStream L d)"

section \<open>Observations on a run\<close>

text \<open>
  A terminal event is \<^verbatim>\<open>response\<close> or \<^verbatim>\<open>error\<close>. A request is live while neither of its two
  callbacks has run. What is outstanding is what can still lead to a terminal event when
  every request gets one answer: a live request, a retry timer, a queued \<^verbatim>\<open>response\<close>
  callback. \<open>ended\<close> counts the ways in which the engine has stopped: the terminal events
  and the exceptions of the transport call.
\<close>

fun terminal :: "'e event \<Rightarrow> bool" where
  "terminal (EResponse _ _) = True"
| "terminal (EError _ _) = True"
| "terminal _ = False"

fun is_response_imm :: "imm \<Rightarrow> bool" where
  "is_response_imm (EmitResponse _ _ _) = True"
| "is_response_imm _ = False"

definition terminals :: "'e engine \<Rightarrow> nat" where
  "terminals s = length (filter terminal (events s))"

definition ended :: "'e engine \<Rightarrow> nat" where
  "ended s = terminals s + length (crashed s)"

definition live :: "'e engine \<Rightarrow> (nat \<times> 'e opts) list" where
  "live s = filter (\<lambda>x. fst x \<in> fst ` set (armed s)) (inflight s)"

definition outstanding :: "'e engine \<Rightarrow> nat" where
  "outstanding s =
     length (live s) + length (timers s) + length (filter is_response_imm (immediates s))"

definition at_rest :: "'e engine \<Rightarrow> bool" where
  "at_rest s = (live s = [] \<and> timers s = [] \<and> immediates s = [])"

text \<open>
  An action is orderly when it gives a request no second answer: no response to a request
  that has raised an error, no error on a request whose response callback has run. A
  schedule is orderly when each of its actions is, in the state it meets. \<open>fresh\<close> says
  that request numbers are new.
\<close>

fun orderly_at :: "'e action \<Rightarrow> 'e engine \<Rightarrow> bool" where
  "orderly_at (Respond n res) s = (n \<in> fst ` set (inflight s) \<longrightarrow> n \<in> fst ` set (armed s))"
| "orderly_at (Fail n err) s = (n \<in> fst ` set (armed s) \<longrightarrow> n \<in> fst ` set (inflight s))"
| "orderly_at a s = True"

fun orderly :: "'e lib \<Rightarrow> 'e engine \<Rightarrow> 'e action list \<Rightarrow> bool" where
  "orderly L s [] = True"
| "orderly L s (a # as) = (orderly_at a s \<and> orderly L (step L a s) as)"

definition fresh :: "'e engine \<Rightarrow> bool" where
  "fresh s = (\<forall>x \<in> set (inflight s). fst x < nextReq s)"

fun ev_of :: "imm \<Rightarrow> 'e event" where
  "ev_of (EmitRequest n) = ERequest n"
| "ev_of (EmitResponse n m res) =
     EResponse n (if m \<noteq> ''HEAD'' then res\<lparr>decompressed := True\<rparr> else res)"

definition pending_trace :: "'e engine \<Rightarrow> 'e event list" where
  "pending_trace s = events s @ map ev_of (immediates s)"

fun request_first :: "nat set \<Rightarrow> 'e event list \<Rightarrow> bool" where
  "request_first seen [] = True"
| "request_first seen (ERequest n # es) = request_first (insert n seen) es"
| "request_first seen (EResponse n r # es) = (n \<in> seen \<and> request_first seen es)"
| "request_first seen (e # es) = request_first seen es"

definition requested :: "'e event list \<Rightarrow> nat set" where
  "requested es = {n. ERequest n \<in> set es}"

definition linked :: "'e engine \<Rightarrow> bool" where
  "linked s = (request_first {} (pending_trace s) \<and>
     fst ` set (inflight s) \<subseteq> requested (pending_trace s))"

text \<open>
  A descriptor is accepted when it passes the guard of \<^verbatim>\<open>get\<close> and the transport makes the
  request. Every descriptor that the engine holds, for a request or for a timer, has been
  accepted.
\<close>

definition accepted :: "'e lib \<Rightarrow> 'e opts \<Rightarrow> bool" where
  "accepted L opts = (supported opts \<and> request_throws L opts = None)"

definition pending_accepted :: "'e lib \<Rightarrow> 'e engine \<Rightarrow> bool" where
  "pending_accepted L s =
     ((\<forall>x \<in> set (inflight s). accepted L (snd x)) \<and> (\<forall>x \<in> set (armed s). accepted L (snd x)) \<and>
      (\<forall>x \<in> set (timers s). accepted L (snd x)))"

text \<open>
  A policy stops after \<open>n\<close> attempts when it returns 0 for every later one. \<open>work\<close> bounds
  what is left to do under such a policy, and \<open>effective\<close> counts the actions of a
  schedule that change the state.
\<close>

definition stops_after :: "(int \<Rightarrow> 'e \<Rightarrow> real) \<Rightarrow> nat \<Rightarrow> bool" where
  "stops_after policy n = (\<forall>iter err. int n < iter \<longrightarrow> policy iter err = 0)"

definition same_policy :: "(int \<Rightarrow> 'e \<Rightarrow> real) \<Rightarrow> 'e engine \<Rightarrow> bool" where
  "same_policy policy s =
     ((\<forall>x \<in> set (inflight s). retries (snd x) = policy) \<and>
      (\<forall>x \<in> set (armed s). retries (snd x) = policy) \<and>
      (\<forall>x \<in> set (timers s). retries (snd x) = policy))"

definition work :: "nat \<Rightarrow> 'e engine \<Rightarrow> nat" where
  "work n s =
     5 * ((10 - min (redirectCount s) 10) + (n - min (retryCount s) n)) +
     2 * length (inflight s) + length (armed s) + 5 * length (timers s) + length (immediates s)"

fun effective :: "'e lib \<Rightarrow> 'e engine \<Rightarrow> 'e action list \<Rightarrow> nat" where
  "effective L s [] = 0"
| "effective L s (a # as) =
     (if step L a s = s then 0 else 1) + effective L (step L a s) as"



fun escaped :: "'e stream_call \<Rightarrow> 'e exn option" where
  "escaped (Throws x s) = Some x"
| "escaped (Returns d) = None"

section \<open>Redirect chains\<close>

text \<open>
  The schedule of a chain: before the transport answers request \<open>i\<close> the platform runs
  \<open>t\<close> queued immediates. \<open>hop\<close> is the descriptor of the next request (lines 55-56),
  \<open>chain_ok\<close> says that every answer is a redirect with a location that resolves to a
  non-empty URL of a supported protocol, for which the transport makes the request, and
  \<open>last_url\<close> is the target of the last one.
  \<open>awaiting\<close> describes the engine while request \<open>i\<close> of a chain is in flight.
\<close>

fun deliver :: "nat \<Rightarrow> (nat \<times> response) list \<Rightarrow> 'e action list" where
  "deliver i [] = []"
| "deliver i ((t, r) # hops) = replicate t Tick @ Respond i r # deliver (Suc i) hops"

definition hop :: "'e lib \<Rightarrow> 'e opts \<Rightarrow> response \<Rightarrow> 'e opts" where
  "hop L opts r = redirected opts (parse L (target L opts r))"

fun chain_ok :: "'e lib \<Rightarrow> 'e opts \<Rightarrow> response list \<Rightarrow> bool" where
  "chain_ok L opts [] = True"
| "chain_ok L opts (r # rs) =
     (isRedirect L (statusCode r) \<and> location r \<noteq> None \<and> target L opts r \<noteq> [] \<and>
      supported (hop L opts r) \<and> request_throws L (hop L opts r) = None \<and>
      chain_ok L (hop L opts r) rs)"

fun last_url :: "'e lib \<Rightarrow> urlstr \<Rightarrow> 'e opts \<Rightarrow> response list \<Rightarrow> urlstr" where
  "last_url L u opts [] = u"
| "last_url L u opts (r # rs) = last_url L (target L opts r) (hop L opts r) rs"

fun last_opts :: "'e lib \<Rightarrow> 'e opts \<Rightarrow> response list \<Rightarrow> 'e opts" where
  "last_opts L opts [] = opts"
| "last_opts L opts (r # rs) = last_opts L (hop L opts r) rs"

definition awaiting :: "'e engine \<Rightarrow> nat \<Rightarrow> 'e opts \<Rightarrow> nat \<Rightarrow> urlstr \<Rightarrow> urlstr \<Rightarrow> bool" where
  "awaiting s i opts c u ru =
     (inflight s = [(i, opts)] \<and> timers s = [] \<and> nextReq s = Suc i \<and> redirectCount s = c \<and>
      or_else (redirectUrl s) (requestUrl s) = u \<and> requestUrl s = ru \<and>
      filter terminal (events s) = [] \<and> filter is_response_imm (immediates s) = [] \<and>
      length (immediates s) \<le> Suc i)"

section \<open>A small instance of the libraries\<close>

text \<open>
  Concrete libraries, a descriptor and responses, to run the definitions on: locations are
  absolute URLs, so resolving one against a base returns it.
\<close>

definition scheme :: "string \<Rightarrow> string option" where
  "scheme u =
     (if take 6 u = ''https:'' then Some ''https:''
      else if take 5 u = ''http:'' then Some ''http:''
      else if take 4 u = ''ftp:'' then Some ''ftp:''
      else None)"

definition ex_lib :: "string lib" where
  "ex_lib =
     \<lparr>isRedirect = (\<lambda>c. c \<in> {300, 301, 302, 303, 305, 307, 308}),
      isRetryAllowed = (\<lambda>e. e \<noteq> ''ENOTFOUND''),
      format = (\<lambda>opts. case href opts of Some h \<Rightarrow> h | None \<Rightarrow> []),
      resolve = (\<lambda>base rel. rel),
      parse = (\<lambda>u. \<lparr>p_protocol = scheme u, p_auth = None, p_href = Some u, p_path = ''/''\<rparr>),
      bufferString = (\<lambda>l. l),
      JSON_parse = (\<lambda>t. if t = ''null'' then Some JNull else None),
      JSON_stringify = (\<lambda>kvs. ''{}''),
      querystring_stringify = (\<lambda>kvs. []),
      urlParseLax = (\<lambda>u. \<lparr>p_protocol = scheme u, p_auth = None, p_href = Some u, p_path = ''/''\<rparr>),
      toUpperCase = (\<lambda>m. m),
      random = (\<lambda>iter. 1 / 2),
      request_throws = (\<lambda>opts. None)\<rparr>"

definition ex_opts :: "string opts" where
  "ex_opts =
     \<lparr>protocol = Some ''http:'', href = Some ''http://a/'', path = ''/'', method_name = ''GET'',
      followRedirect = True, json = False, form = False, body = None, encoding_null = False,
      retries = (\<lambda>iter err. 0), gotTimeout = None\<rparr>"

definition ex_res :: "int \<Rightarrow> string option \<Rightarrow> response" where
  "ex_res code loc =
     \<lparr>statusCode = code, location = loc, url = [], res_requestUrl = [], decompressed = False,
      res_body = Undefined\<rparr>"

section \<open>Running the instance\<close>

lemma ex_lib_simps:
  "isRedirect ex_lib c = (c \<in> {300, 301, 302, 303, 305, 307, 308})"
  "isRetryAllowed ex_lib e = (e \<noteq> ''ENOTFOUND'')"
  "format ex_lib opts = (case href opts of Some h \<Rightarrow> h | None \<Rightarrow> [])"
  "resolve ex_lib base rel = rel"
  "parse ex_lib u = \<lparr>p_protocol = scheme u, p_auth = None, p_href = Some u, p_path = ''/''\<rparr>"
  "bufferString ex_lib l = l"
  "JSON_parse ex_lib t = (if t = ''null'' then Some JNull else None)"
  "urlParseLax ex_lib u = \<lparr>p_protocol = scheme u, p_auth = None, p_href = Some u, p_path = ''/''\<rparr>"
  "toUpperCase ex_lib m = m"
  "random ex_lib iter = 1 / 2"
  "request_throws ex_lib opts = None"
  by (simp_all add: ex_lib_def)

lemmas double_defs = fadd_def fmul_def double_def ilog2_def round_even_def scale_def
      bitlen_def compute_floorlog

lemmas ex_defs = Let_def requestAsEventEmitter_def requestUrl_of_def get_def
      supported_def or_else_def ex_lib_simps ex_opts_def ex_res_def emit_def emit_error_def
      on_response_def on_error_def stamp_def follows_def target_def redirected_def
      answered_def disarmed_def scheme_def thrown_def

section \<open>One terminal event\<close>

lemma run_imm_trace: "run_imm i s = emit (ev_of i) s"
  by (cases i) simp_all

lemma live_irrelevant [simp]:
  "live (s\<lparr>events := ev\<rparr>) = live s"
  "live (s\<lparr>immediates := q\<rparr>) = live s"
  "live (s\<lparr>timers := ts\<rparr>) = live s"
  "live (s\<lparr>redirectCount := c\<rparr>) = live s"
  "live (s\<lparr>retryCount := k\<rparr>) = live s"
  "live (s\<lparr>redirectUrl := u\<rparr>) = live s"
  "live (s\<lparr>uncaught := x\<rparr>) = live s"
  "live (s\<lparr>nextReq := m\<rparr>) = live s"
  "live (s\<lparr>crashed := cr\<rparr>) = live s"
  by (simp_all add: live_def)

lemma live_emit [simp]:
  "live (emit ev s) = live s"
  "live (emit_error err r s) = live s"
  by (simp_all add: emit_error_def emit_def)

lemma fresh_irrelevant [simp]:
  "fresh (s\<lparr>events := ev\<rparr>) = fresh s"
  "fresh (s\<lparr>immediates := q\<rparr>) = fresh s"
  "fresh (s\<lparr>timers := ts\<rparr>) = fresh s"
  "fresh (s\<lparr>redirectCount := c\<rparr>) = fresh s"
  "fresh (s\<lparr>retryCount := k\<rparr>) = fresh s"
  "fresh (s\<lparr>redirectUrl := u\<rparr>) = fresh s"
  "fresh (s\<lparr>uncaught := x\<rparr>) = fresh s"
  "fresh (s\<lparr>crashed := cr\<rparr>) = fresh s"
  "fresh (s\<lparr>armed := a\<rparr>) = fresh s"
  by (simp_all add: fresh_def)

lemma fresh_emit [simp]:
  "fresh (emit ev s) = fresh s"
  "fresh (emit_error err r s) = fresh s"
  by (simp_all add: emit_error_def emit_def)

lemma fresh_get:
  assumes "fresh s"
  shows "fresh (get L opts s)"
proof (cases "supported opts \<and> request_throws L opts = None")
  case True
  with assms show ?thesis
    by (auto simp: get_def fresh_def less_Suc_eq)
next
  case False
  with assms show ?thesis
    by (auto simp: get_def)
qed

lemma fresh_answered: "fresh s \<Longrightarrow> fresh (answered n s)"
  by (simp add: fresh_def answered_def)

lemma live_get:
  assumes "fresh s"
  shows "live (get L opts s)
     = (if supported opts \<and> request_throws L opts = None then live s @ [(nextReq s, opts)]
        else live s)"
proof -
  have "filter (\<lambda>x. fst x = nextReq s \<or> fst x \<in> fst ` set (armed s)) (inflight s)
      = filter (\<lambda>x. fst x \<in> fst ` set (armed s)) (inflight s)"
    using assms by (intro filter_cong) (auto simp: fresh_def)
  then show ?thesis
    by (cases "supported opts"; cases "request_throws L opts")
       (simp_all add: get_def, simp add: live_def)
qed

lemma get_balance:
  "fresh s \<Longrightarrow> ended (get L opts s) + outstanding (get L opts s) = Suc (ended s + outstanding s)"
  by (cases "request_throws L opts")
     (simp_all add: outstanding_def live_get,
      simp_all add: get_def emit_error_def emit_def ended_def terminals_def)

lemma on_response_balance:
  assumes "fresh s"
  shows "ended (on_response L n opts res s) + outstanding (on_response L n opts res s)
     = Suc (ended s + outstanding s)"
proof -
  have "ended (get L ropts (emit ev (s\<lparr>redirectCount := c, redirectUrl := u\<rparr>)))
        + outstanding (get L ropts (emit ev (s\<lparr>redirectCount := c, redirectUrl := u\<rparr>)))
      = Suc (ended s + outstanding s)" if "\<not> terminal ev" for ropts ev c u
    using assms that by (simp add: get_balance) (simp add: ended_def terminals_def outstanding_def emit_def)
  then show ?thesis
    by (simp add: on_response_def Let_def)
       (simp add: emit_error_def emit_def ended_def terminals_def outstanding_def)
qed

lemma on_error_balance:
  "ended (on_error opts err s) + outstanding (on_error opts err s)
     = Suc (ended s + outstanding s)"
  by (simp add: on_error_def Let_def emit_error_def emit_def ended_def terminals_def outstanding_def)

lemma live_answered: "live (answered n s) = filter (\<lambda>(m, _). m \<noteq> n) (live s)"
  by (auto simp: live_def answered_def intro: filter_cong)

lemma live_disarmed: "live (disarmed n s) = filter (\<lambda>(m, _). m \<noteq> n) (live s)"
proof -
  have "fst ` set (filter (\<lambda>(m, _). m \<noteq> n) (armed s)) = fst ` set (armed s) - {n}"
    by force
  then show ?thesis
    by (auto simp: live_def disarmed_def intro: filter_cong)
qed

lemma live_alone:
  assumes "ended s + outstanding s = 1" and "x \<in> set (live s)"
  shows "live s = [x]" and "timers s = []" and "filter terminal (events s) = []"
    and "filter is_response_imm (immediates s) = []" and "crashed s = []"
proof -
  from assms(2) obtain y ys where l: "live s = y # ys"
    by (cases "live s") auto
  with assms(1) have "ys = []" and t: "timers s = []" "filter terminal (events s) = []"
    "filter is_response_imm (immediates s) = []" "crashed s = []"
    by (simp_all add: ended_def terminals_def outstanding_def)
  with l assms(2) show "live s = [x]"
    by simp
  from t show "timers s = []" and "filter terminal (events s) = []"
    and "filter is_response_imm (immediates s) = []" and "crashed s = []"
    by simp_all
qed

lemma live_member:
  "map_of (inflight s) n = Some opts \<Longrightarrow> n \<in> fst ` set (armed s) \<Longrightarrow> (n, opts) \<in> set (live s)"
  by (auto simp: live_def dest: map_of_SomeD)

lemma answered_balance:
  assumes "ended s + outstanding s = 1" and "map_of (inflight s) n = Some opts"
    and "orderly_at (Respond n res) s"
  shows "ended (answered n s) + outstanding (answered n s) = 0"
proof -
  have "n \<in> fst ` set (inflight s)"
    using assms(2) by (force dest: map_of_SomeD)
  with assms(3) have "(n, opts) \<in> set (live s)"
    using assms(2) by (intro live_member) simp_all
  note alone = live_alone [OF assms(1) this]
  have "live (answered n s) = []"
    by (simp add: live_answered alone(1))
  with alone show ?thesis
    by (simp add: ended_def terminals_def outstanding_def) (simp add: answered_def)
qed

lemma disarmed_balance:
  assumes "ended s + outstanding s = 1" and "map_of (armed s) n = Some opts"
    and "orderly_at (Fail n err) s"
  shows "ended (disarmed n s) + outstanding (disarmed n s) = 0"
proof -
  have a: "n \<in> fst ` set (armed s)"
    using assms(2) by (force dest: map_of_SomeD)
  with assms(3) obtain o' where "(n, o') \<in> set (inflight s)"
    by auto
  with a have "(n, o') \<in> set (live s)"
    by (auto simp: live_def)
  note alone = live_alone [OF assms(1) this]
  have "live (disarmed n s) = []"
    by (simp add: live_disarmed alone(1))
  with alone show ?thesis
    by (simp add: ended_def terminals_def outstanding_def) (simp add: disarmed_def)
qed

lemma step_fresh: "fresh s \<Longrightarrow> fresh (step L a s)"
proof (cases a)
  case Tick
  assume "fresh s"
  with Tick show ?thesis
    by (cases "immediates s") (simp_all add: run_imm_trace)
next
  case (Respond n res)
  assume "fresh s"
  then have "fresh (on_response L n opts res (answered n s))" for opts
    by (simp add: on_response_def Let_def fresh_get fresh_answered)
  with Respond \<open>fresh s\<close> show ?thesis
    by (cases "map_of (inflight s) n") simp_all
next
  case (Fail n err)
  assume "fresh s"
  then have "fresh (on_error opts err (disarmed n s))" for opts
    by (simp add: on_error_def Let_def disarmed_def)
  with Fail \<open>fresh s\<close> show ?thesis
    by (cases "map_of (armed s) n") simp_all
next
  case (Timeout k)
  assume "fresh s"
  with Timeout show ?thesis
    by (simp add: fresh_get)
qed

lemma step_balance:
  assumes "ended s + outstanding s = 1" and "fresh s" and "orderly_at a s"
  shows "ended (step L a s) + outstanding (step L a s) = 1"
proof (cases a)
  case Tick
  show ?thesis
  proof (cases "immediates s")
    case Nil
    with Tick assms show ?thesis by simp
  next
    case (Cons i rest)
    with Tick assms(1) show ?thesis
      by (cases i) (simp_all add: ended_def terminals_def outstanding_def emit_def)
  qed
next
  case (Respond n res)
  show ?thesis
  proof (cases "map_of (inflight s) n")
    case None
    with Respond assms show ?thesis by simp
  next
    case (Some opts)
    from assms(3) Respond have "orderly_at (Respond n res) s"
      by simp
    from answered_balance [OF assms(1) Some this] Respond Some assms(2) show ?thesis
      by (simp add: on_response_balance fresh_answered)
  qed
next
  case (Fail n err)
  show ?thesis
  proof (cases "map_of (armed s) n")
    case None
    with Fail assms show ?thesis by simp
  next
    case (Some opts)
    from assms(3) Fail have "orderly_at (Fail n err) s"
      by simp
    from disarmed_balance [OF assms(1) Some this] Fail Some show ?thesis
      by (simp add: on_error_balance)
  qed
next
  case (Timeout k)
  show ?thesis
  proof (cases "k < length (timers s)")
    case False
    with Timeout assms show ?thesis by simp
  next
    case True
    define s' where "s' = s\<lparr>timers := take k (timers s) @ drop (Suc k) (timers s)\<rparr>"
    have "Suc (ended s' + outstanding s') = ended s + outstanding s"
      using True by (simp add: s'_def ended_def terminals_def outstanding_def)
    with assms(1) have "ended s' + outstanding s' = 0"
      by simp
    moreover have "fresh s'"
      using assms(2) by (simp add: s'_def)
    ultimately show ?thesis
      using True Timeout by (simp add: get_balance s'_def)
  qed
qed

lemma run_balance:
  "ended s + outstanding s = 1 \<Longrightarrow> fresh s \<Longrightarrow> orderly L s acts \<Longrightarrow>
     ended (run L s acts) + outstanding (run L s acts) = 1"
proof (induction acts arbitrary: s)
  case Nil
  then show ?case by simp
next
  case (Cons a acts)
  from Cons.prems have "ended (step L a s) + outstanding (step L a s) = 1"
    by (intro step_balance) simp_all
  moreover from Cons.prems have "fresh (step L a s)"
    by (intro step_fresh)
  ultimately show ?case
    using Cons.prems(3) by (simp add: Cons.IH del: step.simps)
qed

lemma run_fresh: "fresh s \<Longrightarrow> fresh (run L s acts)"
  by (induction acts arbitrary: s) (simp_all add: step_fresh del: step.simps)

lemma start_fresh: "fresh (requestAsEventEmitter L opts)"
  unfolding requestAsEventEmitter_def by (rule fresh_get) (simp add: fresh_def)

lemma start_balance:
  "ended (requestAsEventEmitter L opts) + outstanding (requestAsEventEmitter L opts) = 1"
  unfolding requestAsEventEmitter_def
  by (subst get_balance) (simp_all add: fresh_def ended_def terminals_def outstanding_def live_def)

lemma reachable_balance:
  "orderly L (requestAsEventEmitter L opts) acts \<Longrightarrow>
     ended (run L (requestAsEventEmitter L opts) acts)
       + outstanding (run L (requestAsEventEmitter L opts) acts) = 1"
  by (intro run_balance start_balance start_fresh)

lemma follows_stamp [simp]: "follows L opts (stamp s res) = follows L opts res"
  by (simp add: follows_def stamp_def)

lemma statusCode_stamp [simp]: "statusCode (stamp s res) = statusCode res"
  by (simp add: stamp_def)

lemma target_stamp [simp]: "target L opts (stamp s r) = target L opts r"
  by (simp add: target_def stamp_def)

lemma stamp_answered [simp]: "stamp (answered n s) res = stamp s res"
  by (simp add: stamp_def answered_def)

lemma default_retries_stops: "stops_after (default_retries L n) (nat n)"
  by (simp add: stops_after_def default_retries_def)

lemma get_policy:
  "same_policy p s \<Longrightarrow> retries opts = p \<Longrightarrow> same_policy p (get L opts s)"
  by (simp add: same_policy_def get_def emit_error_def emit_def split: option.split)

lemma get_work: "work n (get L opts s) \<le> work n s + 4"
  by (simp add: work_def get_def emit_error_def emit_def split: option.split)

lemma work_emit_error [simp]: "work n (emit_error e r s) = work n s"
  by (simp add: work_def emit_error_def emit_def)

lemma policy_emit_error [simp]: "same_policy p (emit_error e r s) = same_policy p s"
  by (simp add: same_policy_def emit_error_def emit_def)

lemma work_retry: "work n (s\<lparr>retryCount := retryCount s + 1\<rparr>) \<le> work n s"
  by (simp add: work_def)

lemma work_redirect: "work n (s\<lparr>redirectCount := redirectCount s + 1\<rparr>) \<le> work n s"
  by (simp add: work_def)

lemma removed_shorter:
  "map_of xs n = Some v \<Longrightarrow> length (filter (\<lambda>(m, _). m \<noteq> n) xs) < length xs"
proof -
  assume "map_of xs n = Some v"
  then have "(n, v) \<in> set xs"
    by (rule map_of_SomeD)
  from length_filter_less [OF this, of "\<lambda>(m, _). m \<noteq> n"] show ?thesis
    by simp
qed

lemma step_work:
  assumes "stops_after p n" and "same_policy p s"
  shows "same_policy p (step L a s) \<and> (step L a s = s \<or> work n (step L a s) < work n s)"
proof (cases a)
  case Tick
  with assms show ?thesis
    by (cases "immediates s") (simp_all add: same_policy_def work_def run_imm_trace emit_def)
next
  case (Respond i res)
  show ?thesis
  proof (cases "map_of (inflight s) i")
    case None
    with Respond assms show ?thesis by simp
  next
    case (Some opts)
    then have "(i, opts) \<in> set (inflight s)"
      by (rule map_of_SomeD)
    with assms(2) have pol: "retries opts = p"
      by (auto simp: same_policy_def)
    define s1 where "s1 = answered i s"
    have s1: "armed s1 = armed s" "timers s1 = timers s" "immediates s1 = immediates s"
      "redirectCount s1 = redirectCount s" "retryCount s1 = retryCount s"
      by (simp_all add: s1_def answered_def)
    have p1: "same_policy p s1"
      using assms(2) by (simp add: same_policy_def s1) (simp add: s1_def answered_def)
    have "length (inflight s1) < length (inflight s)"
      using removed_shorter [OF Some] by (simp add: s1_def answered_def)
    then have w1: "work n s1 + 2 \<le> work n s"
      by (simp add: work_def s1)
    have st: "step L a s = on_response L i opts res s1"
      using Respond Some by (simp add: s1_def)
    show ?thesis
    proof (cases "follows L opts res")
      case False
      then have "on_response L i opts res s1
          = s1\<lparr>immediates := immediates s1 @ [EmitResponse i (method_name opts) (stamp s1 res)]\<rparr>"
        by (simp add: on_response_def Let_def)
      moreover have "work n (s1\<lparr>immediates := immediates s1 @ [x]\<rparr>) < work n s" for x
        using w1 by (simp add: work_def)
      ultimately show ?thesis
        using p1 by (simp add: st same_policy_def)
    next
      case True
      show ?thesis
      proof (cases "10 < redirectCount s1 + 1")
        case over: True
        with True have "on_response L i opts res s1
            = emit_error (MaxRedirectsError (statusCode res) opts) (Some (stamp s1 res))
                (s1\<lparr>redirectCount := redirectCount s1 + 1\<rparr>)"
          by (simp add: on_response_def Let_def)
        moreover have "same_policy p (s1\<lparr>redirectCount := redirectCount s1 + 1\<rparr>)"
          using p1 by (simp add: same_policy_def)
        moreover have "work n (s1\<lparr>redirectCount := redirectCount s1 + 1\<rparr>) < work n s"
          using work_redirect [of n s1] w1 by simp
        ultimately show ?thesis
          by (simp add: st del: One_nat_def)
      next
        case under: False
        define ropts where "ropts = redirected opts (parse L (target L opts res))"
        define s2 where "s2 = emit (ERedirect i (stamp s1 res) ropts)
            (s1\<lparr>redirectCount := redirectCount s1 + 1, redirectUrl := Some (target L opts res)\<rparr>)"
        have on: "on_response L i opts res s1 = get L ropts s2"
          using True under by (simp add: on_response_def Let_def s2_def ropts_def)
        have p2: "same_policy p s2"
          using p1 by (simp add: same_policy_def s2_def emit_def)
        have "retries ropts = p"
          using pol by (simp add: ropts_def redirected_def)
        with p2 have p3: "same_policy p (get L ropts s2)"
          by (rule get_policy)
        have "work n s2 + 5 = work n s1"
          using under by (simp add: work_def s2_def emit_def)
        with get_work [of n L ropts s2] w1 have "work n (get L ropts s2) < work n s"
          by simp
        with p3 show ?thesis
          by (simp add: st on)
      qed
    qed
  qed
next
  case (Fail i err)
  show ?thesis
  proof (cases "map_of (armed s) i")
    case None
    with Fail assms show ?thesis by simp
  next
    case (Some opts)
    then have "(i, opts) \<in> set (armed s)"
      by (rule map_of_SomeD)
    with assms(2) have pol: "retries opts = p"
      by (auto simp: same_policy_def)
    define s1 where "s1 = disarmed i s"
    have s1: "inflight s1 = inflight s" "timers s1 = timers s" "immediates s1 = immediates s"
      "redirectCount s1 = redirectCount s" "retryCount s1 = retryCount s"
      by (simp_all add: s1_def disarmed_def)
    have p1: "same_policy p s1"
      using assms(2) by (simp add: same_policy_def s1) (simp add: s1_def disarmed_def)
    have "length (armed s1) < length (armed s)"
      using removed_shorter [OF Some] by (simp add: s1_def disarmed_def)
    then have w1: "work n s1 + 1 \<le> work n s"
      by (simp add: work_def s1)
    have st: "step L a s = on_error opts err s1"
      using Fail Some by (simp add: s1_def)
    show ?thesis
    proof (cases "retries opts (int (retryCount s1 + 1)) err = 0")
      case True
      then have "on_error opts err s1
          = emit_error (RequestError err opts) None (s1\<lparr>retryCount := retryCount s1 + 1\<rparr>)"
        by (simp add: on_error_def Let_def)
      moreover have "same_policy p (s1\<lparr>retryCount := retryCount s1 + 1\<rparr>)"
        using p1 by (simp add: same_policy_def)
      moreover have "work n (s1\<lparr>retryCount := retryCount s1 + 1\<rparr>) < work n s"
        using work_retry [of n s1] w1 by simp
      ultimately show ?thesis
        by (simp add: st del: One_nat_def)
    next
      case False
      with assms(1) pol have "\<not> int n < int (retryCount s1 + 1)"
        unfolding stops_after_def by blast
      then have le: "retryCount s1 < n"
        by simp
      from False have on: "on_error opts err s1
          = s1\<lparr>retryCount := retryCount s1 + 1,
               timers := timers s1 @ [(retries opts (int (retryCount s1 + 1)) err, opts)]\<rparr>"
        by (simp add: on_error_def Let_def)
      have "same_policy p (on_error opts err s1)"
        using p1 pol by (simp add: on same_policy_def)
      moreover have "work n (on_error opts err s1) = work n s1"
        using le by (simp add: on work_def min_def; arith)
      ultimately show ?thesis
        using w1 by (simp add: st)
    qed
  qed
next
  case (Timeout k)
  show ?thesis
  proof (cases "k < length (timers s)")
    case False
    with Timeout assms show ?thesis by simp
  next
    case True
    define s1 where "s1 = s\<lparr>timers := take k (timers s) @ drop (Suc k) (timers s)\<rparr>"
    have "snd (timers s ! k) \<in> snd ` set (timers s)"
      using True by simp
    with assms(2) have pol: "retries (snd (timers s ! k)) = p"
      by (auto simp: same_policy_def)
    have p1: "same_policy p s1"
      using assms(2) by (auto simp: same_policy_def s1_def dest: in_set_takeD in_set_dropD)
    have "work n s1 + 5 = work n s"
      using True by (simp add: work_def s1_def)
    with get_work [of n L "snd (timers s ! k)" s1]
    have "work n (get L (snd (timers s ! k)) s1) < work n s"
      by simp
    with get_policy [OF p1 pol] Timeout True show ?thesis
      by (simp add: s1_def)
  qed
qed

lemma run_work:
  assumes "stops_after p n"
  shows "same_policy p s \<Longrightarrow> effective L s acts + work n (run L s acts) \<le> work n s"
proof (induction acts arbitrary: s)
  case Nil
  then show ?case by simp
next
  case (Cons a acts)
  note sw = step_work [OF assms Cons.prems, of L a]
  from Cons.IH sw
  have "effective L (step L a s) acts + work n (run L (step L a s) acts) \<le> work n (step L a s)"
    by blast
  with sw show ?case
    by (auto simp del: step.simps)
qed

lemma start_policy: "same_policy (retries opts) (requestAsEventEmitter L opts)"
  by (simp add: requestAsEventEmitter_def get_def same_policy_def emit_error_def emit_def
      split: option.split)

lemma start_work: "work n (requestAsEventEmitter L opts) \<le> 5 * (10 + n) + 4"
  by (simp add: requestAsEventEmitter_def get_def work_def emit_error_def emit_def
      split: option.split)

lemma effective_bound:
  assumes "stops_after (retries opts) n"
  shows "effective L (requestAsEventEmitter L opts) acts \<le> 5 * (10 + n) + 4"
proof -
  have "effective L (requestAsEventEmitter L opts) acts
      + work n (run L (requestAsEventEmitter L opts) acts) \<le> work n (requestAsEventEmitter L opts)"
    using assms start_policy by (rule run_work)
  with start_work [of n L opts] show ?thesis
    by simp
qed

lemma at_rest_iff: "at_rest s = (\<forall>a. orderly_at a s \<longrightarrow> step L a s = s)"
proof
  assume r: "at_rest s"
  have "step L a s = s" if "orderly_at a s" for a
  proof (cases a)
    case Tick
    with r show ?thesis by (simp add: at_rest_def)
  next
    case (Respond n res)
    show ?thesis
    proof (cases "map_of (inflight s) n")
      case None
      with Respond show ?thesis by simp
    next
      case (Some opts)
      then have "n \<in> fst ` set (inflight s)"
        by (force dest: map_of_SomeD)
      with that Respond Some have "(n, opts) \<in> set (live s)"
        by (intro live_member) simp_all
      with r show ?thesis by (simp add: at_rest_def)
    qed
  next
    case (Fail n err)
    show ?thesis
    proof (cases "map_of (armed s) n")
      case None
      with Fail show ?thesis by simp
    next
      case (Some opts)
      then have a: "n \<in> fst ` set (armed s)"
        by (force dest: map_of_SomeD)
      with that Fail obtain o' where "(n, o') \<in> set (inflight s)"
        by auto
      with a have "(n, o') \<in> set (live s)"
        by (auto simp: live_def)
      with r show ?thesis by (simp add: at_rest_def)
    qed
  next
    case (Timeout k)
    with r show ?thesis by (simp add: at_rest_def)
  qed
  then show "\<forall>a. orderly_at a s \<longrightarrow> step L a s = s"
    by blast
next
  assume stuck: "\<forall>a. orderly_at a s \<longrightarrow> step L a s = s"
  have "immediates s = []"
  proof (cases "immediates s")
    case (Cons x rest)
    then have "length (events (step L Tick s)) = Suc (length (events s))"
      by (simp add: run_imm_trace emit_def)
    moreover from stuck have "step L Tick s = s"
      by (simp del: step.simps)
    ultimately show ?thesis by (simp del: step.simps)
  qed simp
  moreover have "live s = []"
  proof (cases "live s")
    case (Cons x rest)
    obtain i opts where x: "x = (i, opts)"
      by (cases x)
    from Cons x have "(i, opts) \<in> set (live s)"
      by simp
    then have in1: "i \<in> fst ` set (inflight s)" and in2: "i \<in> fst ` set (armed s)"
      by (force simp: live_def)+
    from in2 obtain o' where "map_of (armed s) i = Some o'"
      by (cases "map_of (armed s) i") (auto simp: map_of_eq_None_iff)
    then have "retryCount (step L (Fail i undefined) s) = Suc (retryCount s)"
      by (simp add: on_error_def Let_def emit_error_def emit_def disarmed_def)
    moreover from stuck in1 have "step L (Fail i undefined) s = s"
      by (simp del: step.simps)
    ultimately show ?thesis by (simp del: step.simps)
  qed simp
  moreover have "timers s = []"
  proof (cases "timers s")
    case (Cons x rest)
    have "length (timers (step L (Timeout 0) s)) < length (timers s)"
      using Cons by (simp add: get_def emit_error_def emit_def split: option.split)
    moreover from stuck have "step L (Timeout 0) s = s"
      by (simp del: step.simps)
    ultimately show ?thesis by (simp del: step.simps)
  qed simp
  ultimately show "at_rest s"
    by (simp add: at_rest_def)
qed

lemma run_append: "run L s (xs @ ys) = run L (run L s xs) ys"
  by (induction xs arbitrary: s) simp_all

lemma orderly_append:
  "orderly L s (xs @ ys) = (orderly L s xs \<and> orderly L (run L s xs) ys)"
  by (induction xs arbitrary: s) (simp_all del: step.simps)

lemma run_policy: "stops_after p n \<Longrightarrow> same_policy p s \<Longrightarrow> same_policy p (run L s acts)"
proof (induction acts arbitrary: s)
  case Nil
  then show ?case by simp
next
  case (Cons a acts)
  from step_work [OF Cons.prems, of L a] have "same_policy p (step L a s)"
    by simp
  from Cons.IH [OF Cons.prems(1) this] show ?case
    by (simp del: step.simps)
qed

lemma can_rest:
  assumes "stops_after p n"
  shows "same_policy p s \<Longrightarrow> \<exists>ext. orderly L s ext \<and> at_rest (run L s ext)"
proof (induction "work n s" arbitrary: s rule: less_induct)
  case less
  show ?case
  proof (cases "at_rest s")
    case True
    then have "orderly L s [] \<and> at_rest (run L s [])"
      by simp
    then show ?thesis by blast
  next
    case False
    then obtain a where a: "orderly_at a s" "step L a s \<noteq> s"
      using at_rest_iff [of s L] by blast
    from step_work [OF assms less.prems, of L a] a(2)
    have p: "same_policy p (step L a s)" and w: "work n (step L a s) < work n s"
      by simp_all
    from less.hyps [OF w p] obtain ext
      where "orderly L (step L a s) ext" and "at_rest (run L (step L a s) ext)"
      by blast
    with a(1) have "orderly L s (a # ext) \<and> at_rest (run L s (a # ext))"
      by (simp del: step.simps)
    then show ?thesis by blast
  qed
qed

lemma get_crashed: "request_throws L opts = None \<Longrightarrow> crashed (get L opts s) = crashed s"
  by (simp add: get_def emit_error_def emit_def)

lemma step_crashed:
  assumes "\<forall>d. request_throws L d = None"
  shows "crashed (step L a s) = crashed s"
proof (cases a)
  case Tick
  then show ?thesis
    by (cases "immediates s") (simp_all add: run_imm_trace emit_def)
next
  case (Respond n res)
  have "crashed (on_response L n opts res (answered n s)) = crashed s" for opts
    using assms
    by (simp add: on_response_def Let_def get_crashed emit_error_def emit_def answered_def)
  with Respond show ?thesis
    by (cases "map_of (inflight s) n") simp_all
next
  case (Fail n err)
  have "crashed (on_error opts err (disarmed n s)) = crashed s" for opts
    by (simp add: on_error_def Let_def emit_error_def emit_def disarmed_def)
  with Fail show ?thesis
    by (cases "map_of (armed s) n") simp_all
next
  case (Timeout k)
  with assms show ?thesis
    by (simp add: get_crashed)
qed

lemma run_crashed:
  "\<forall>d. request_throws L d = None \<Longrightarrow> crashed (run L s acts) = crashed s"
  by (induction acts arbitrary: s) (simp_all add: step_crashed del: step.simps)

lemma start_crashed:
  "request_throws L opts = None \<Longrightarrow> crashed (requestAsEventEmitter L opts) = []"
  unfolding requestAsEventEmitter_def by (simp add: get_crashed)

text \<open>
  When the transport call throws on the descriptor, the engine is at rest with no terminal
  event: the exception has left \<^verbatim>\<open>requestAsEventEmitter\<close>.
\<close>

lemma refused_no_terminal:
  "events (requestAsEventEmitter
       (ex_lib\<lparr>request_throws := \<lambda>d. Some (TypeError ''Request path contains unescaped characters'')\<rparr>)
       (ex_opts\<lparr>path := ''/a b''\<rparr>)) = [] \<and>
   at_rest (requestAsEventEmitter
       (ex_lib\<lparr>request_throws := \<lambda>d. Some (TypeError ''Request path contains unescaped characters'')\<rparr>)
       (ex_opts\<lparr>path := ''/a b''\<rparr>)) \<and>
   thrown (requestAsEventEmitter
       (ex_lib\<lparr>request_throws := \<lambda>d. Some (TypeError ''Request path contains unescaped characters'')\<rparr>)
       (ex_opts\<lparr>path := ''/a b''\<rparr>))
     = [TypeError ''Request path contains unescaped characters'']"
  by (simp add: requestAsEventEmitter_def get_def supported_def ex_opts_def at_rest_def live_def
      thrown_def)

text \<open>
  C1 as stated fails when the transport raises an error on a request after it has called
  its response callback, as a socket error or a timeout while the body is read does: the
  listener of line 72 is still registered, so the \<^verbatim>\<open>response\<close> event is followed by an
  \<^verbatim>\<open>error\<close> event (or, when the policy grants a retry, by another attempt).
\<close>

theorem one_terminal_event_counterexample:
  "filter terminal (events (run ex_lib (requestAsEventEmitter ex_lib ex_opts)
       [Tick, Respond 0 (ex_res 200 None), Tick, Fail 0 ''ECONNRESET'']))
     = [EResponse 0 ((ex_res 200 None)\<lparr>url := ''http://a/'', res_requestUrl := ''http://a/'',
           decompressed := True\<rparr>),
        EError (RequestError ''ECONNRESET'' ex_opts) None]"
  by (simp add: ex_defs)

text \<open>
  C1, as amended. On every orderly schedule the terminal events published, the exceptions
  thrown by the transport call and the things outstanding add up to one: at every moment at
  most one terminal event has been published, and none while a request is live or a timer
  is set, which is the state a redirect or a retry leaves, nor after the transport call has
  thrown. So when the transport takes every descriptor, a run that has come to rest has
  published exactly one terminal event. The engine is at rest exactly when no orderly
  action changes its state. Under a policy that stops after \<open>n\<close> attempts, as the default
  one does, every orderly run can be continued to rest, and at most \<open>5 * (10 + n) + 4\<close>
  actions of any schedule change the state.
\<close>

theorem one_terminal_event:
  "let s = run L (requestAsEventEmitter L opts) acts in
     (orderly L (requestAsEventEmitter L opts) acts \<longrightarrow>
        terminals s + length (crashed s) + outstanding s = 1 \<and>
        (at_rest s \<and> crashed s = [] \<longrightarrow> (\<exists>ev. filter terminal (events s) = [ev])) \<and>
        (live s \<noteq> [] \<or> timers s \<noteq> [] \<or> crashed s \<noteq> [] \<longrightarrow> filter terminal (events s) = []) \<and>
        (stops_after (retries opts) n \<longrightarrow>
           (\<exists>ext. orderly L (requestAsEventEmitter L opts) (acts @ ext) \<and>
                  at_rest (run L (requestAsEventEmitter L opts) (acts @ ext))))) \<and>
     ((\<forall>d. request_throws L d = None) \<longrightarrow> crashed s = []) \<and>
     (at_rest s = (\<forall>a. orderly_at a s \<longrightarrow> step L a s = s)) \<and>
     (stops_after (retries opts) n \<longrightarrow>
        effective L (requestAsEventEmitter L opts) acts \<le> 5 * (10 + n) + 4)"
proof -
  define s0 where "s0 = requestAsEventEmitter L opts"
  define s where "s = run L s0 acts"
  have safe: "terminals s + length (crashed s) + outstanding s = 1 \<and>
        (at_rest s \<and> crashed s = [] \<longrightarrow> (\<exists>ev. filter terminal (events s) = [ev])) \<and>
        (live s \<noteq> [] \<or> timers s \<noteq> [] \<or> crashed s \<noteq> [] \<longrightarrow> filter terminal (events s) = [])"
    if "orderly L s0 acts"
  proof -
    have "ended s + outstanding s = 1"
      unfolding s_def s0_def using that [unfolded s0_def] by (rule reachable_balance)
    then have bal: "terminals s + length (crashed s) + outstanding s = 1"
      by (simp add: ended_def)
    have "\<exists>ev. filter terminal (events s) = [ev]" if "at_rest s" and "crashed s = []"
    proof -
      from that bal have "length (filter terminal (events s)) = 1"
        by (simp add: at_rest_def terminals_def outstanding_def)
      then show ?thesis
        by (cases "filter terminal (events s)") auto
    qed
    moreover have "filter terminal (events s) = []"
      if "live s \<noteq> [] \<or> timers s \<noteq> [] \<or> crashed s \<noteq> []"
      using that bal
      by (cases "live s"; cases "timers s"; cases "crashed s")
         (auto simp: terminals_def outstanding_def)
    ultimately show ?thesis
      using bal by blast
  qed
  have live: "\<exists>ext. orderly L s0 (acts @ ext) \<and> at_rest (run L s0 (acts @ ext))"
    if o: "orderly L s0 acts" and p: "stops_after (retries opts) n"
  proof -
    have "same_policy (retries opts) s"
      unfolding s_def s0_def using p start_policy by (rule run_policy)
    from can_rest [OF p this, of L] obtain ext
      where "orderly L s ext" and "at_rest (run L s ext)"
      by blast
    with o have "orderly L s0 (acts @ ext) \<and> at_rest (run L s0 (acts @ ext))"
      by (simp add: orderly_append run_append s_def)
    then show ?thesis by blast
  qed
  have cr: "crashed s = []" if "\<forall>d. request_throws L d = None"
    unfolding s_def s0_def using that by (simp add: run_crashed start_crashed)
  note rest = at_rest_iff [of s L] and eff = effective_bound [of opts n L acts]
  from safe live cr rest eff show ?thesis
    unfolding Let_def s_def [symmetric] s0_def [symmetric]
    unfolding s0_def [symmetric] by (simp only: s0_def [symmetric]) blast
qed

theorem one_terminal_event_witness:
  "orderly ex_lib (requestAsEventEmitter ex_lib ex_opts)
       [Tick, Respond 0 (ex_res 302 (Some ''http://b/'')), Tick, Respond 1 (ex_res 200 None), Tick] \<and>
   at_rest (run ex_lib (requestAsEventEmitter ex_lib ex_opts)
       [Tick, Respond 0 (ex_res 302 (Some ''http://b/'')), Tick, Respond 1 (ex_res 200 None), Tick]) \<and>
   crashed (run ex_lib (requestAsEventEmitter ex_lib ex_opts)
       [Tick, Respond 0 (ex_res 302 (Some ''http://b/'')), Tick, Respond 1 (ex_res 200 None), Tick]) = [] \<and>
   filter terminal (events (run ex_lib (requestAsEventEmitter ex_lib ex_opts)
       [Tick, Respond 0 (ex_res 302 (Some ''http://b/'')), Tick, Respond 1 (ex_res 200 None), Tick]))
     = [EResponse 1 ((ex_res 200 None)\<lparr>url := ''http://b/'', res_requestUrl := ''http://a/'',
           decompressed := True\<rparr>)] \<and>
   (\<forall>d. request_throws ex_lib d = None) \<and>
   stops_after (retries ex_opts) 0 \<and>
   effective ex_lib (requestAsEventEmitter ex_lib ex_opts)
       [Tick, Respond 0 (ex_res 302 (Some ''http://b/'')), Tick, Respond 1 (ex_res 200 None), Tick] \<le> 54"
proof -
  have "stops_after (retries ex_opts) 0"
    by (simp add: stops_after_def ex_opts_def)
  moreover have "\<forall>d. request_throws ex_lib d = None"
    by (simp add: ex_lib_simps)
  moreover have "orderly ex_lib (requestAsEventEmitter ex_lib ex_opts)
       [Tick, Respond 0 (ex_res 302 (Some ''http://b/'')), Tick, Respond 1 (ex_res 200 None), Tick]"
    and "at_rest (run ex_lib (requestAsEventEmitter ex_lib ex_opts)
       [Tick, Respond 0 (ex_res 302 (Some ''http://b/'')), Tick, Respond 1 (ex_res 200 None), Tick])"
    and "crashed (run ex_lib (requestAsEventEmitter ex_lib ex_opts)
       [Tick, Respond 0 (ex_res 302 (Some ''http://b/'')), Tick, Respond 1 (ex_res 200 None), Tick]) = []"
    and "filter terminal (events (run ex_lib (requestAsEventEmitter ex_lib ex_opts)
       [Tick, Respond 0 (ex_res 302 (Some ''http://b/'')), Tick, Respond 1 (ex_res 200 None), Tick]))
     = [EResponse 1 ((ex_res 200 None)\<lparr>url := ''http://b/'', res_requestUrl := ''http://a/'',
           decompressed := True\<rparr>)]"
    by (simp_all add: at_rest_def live_def ex_defs)
  ultimately show ?thesis
    using one_terminal_event [of ex_lib ex_opts
      "[Tick, Respond 0 (ex_res 302 (Some ''http://b/'')), Tick, Respond 1 (ex_res 200 None), Tick]" 0]
    by (simp add: Let_def del: run.simps step.simps effective.simps orderly.simps)
qed

section \<open>Following a chain of redirects\<close>

lemma hop_fields [simp]:
  "followRedirect (hop L opts r) = followRedirect opts"
  "method_name (hop L opts r) = method_name opts"
  by (simp_all add: hop_def redirected_def)

lemma tick_awaiting:
  assumes "awaiting s i opts c u ru"
  shows "awaiting (step L Tick s) i opts c u ru"
proof (cases "immediates s")
  case Nil
  with assms show ?thesis by simp
next
  case (Cons x rest)
  with assms obtain k where "x = EmitRequest k"
    by (cases x) (auto simp: awaiting_def)
  with Cons assms show ?thesis
    by (auto simp: awaiting_def emit_def)
qed

lemma ticks_awaiting:
  "awaiting s i opts c u ru \<Longrightarrow> awaiting (run L s (replicate t Tick)) i opts c u ru"
proof (induction t arbitrary: s)
  case 0
  then show ?case by simp
next
  case (Suc t)
  from Suc.IH [OF tick_awaiting [OF Suc.prems]] show ?case
    by (simp del: step.simps)
qed

lemma redirect_awaiting:
  assumes "awaiting s i opts c u ru" and "follows L opts r" and "c < 10"
    and "target L opts r \<noteq> []" and "supported (hop L opts r)"
    and "request_throws L (hop L opts r) = None"
  shows "awaiting (step L (Respond i r) s) (Suc i) (hop L opts r) (Suc c) (target L opts r) ru"
proof -
  define s1 where "s1 = answered i s"
  have s1: "inflight s1 = []" "timers s1 = []" "nextReq s1 = Suc i" "redirectCount s1 = c"
    "requestUrl s1 = ru" "events s1 = events s" "immediates s1 = immediates s"
    using assms(1) by (simp_all add: s1_def awaiting_def answered_def)
  have st: "step L (Respond i r) s = on_response L i opts r s1"
    using assms(1) by (simp add: s1_def awaiting_def)
  show ?thesis
    unfolding st using s1 assms
    by (simp add: on_response_def Let_def s1_def get_def emit_def awaiting_def or_else_def
        hop_def [symmetric])
qed

lemma chain_awaiting:
  assumes "awaiting s i opts c u ru" and "followRedirect opts" and "method_name opts = ''GET''"
    and "chain_ok L opts (map snd hops)" and "c + length hops \<le> 10"
  shows "awaiting (run L s (deliver i hops)) (i + length hops) (last_opts L opts (map snd hops))
           (c + length hops) (last_url L u opts (map snd hops)) ru"
  using assms
proof (induction hops arbitrary: s i opts c u)
  case Nil
  then show ?case by simp
next
  case (Cons h hops)
  obtain t r where h: "h = (t, r)"
    by (cases h)
  define s1 where "s1 = run L s (replicate t Tick)"
  define s2 where "s2 = step L (Respond i r) s1"
  have 1: "awaiting s1 i opts c u ru"
    unfolding s1_def using Cons.prems(1) by (rule ticks_awaiting)
  have f: "follows L opts r"
    using Cons.prems(2,3,4) by (simp add: h follows_def)
  have 2: "awaiting s2 (Suc i) (hop L opts r) (Suc c) (target L opts r) ru"
    unfolding s2_def using 1 f Cons.prems(4,5) by (intro redirect_awaiting) (simp_all add: h)
  have "awaiting (run L s2 (deliver (Suc i) hops)) (Suc i + length hops)
          (last_opts L (hop L opts r) (map snd hops)) (Suc c + length hops)
          (last_url L (target L opts r) (hop L opts r) (map snd hops)) ru"
    using 2 Cons.prems by (intro Cons.IH) (simp_all add: h)
  then show ?case
    by (simp add: h run_append s1_def s2_def)
qed

lemma start_awaiting:
  "supported opts \<Longrightarrow> request_throws L opts = None \<Longrightarrow>
     awaiting (requestAsEventEmitter L opts) 0 opts 0 (requestUrl_of L opts) (requestUrl_of L opts)"
  by (simp add: awaiting_def requestAsEventEmitter_def get_def or_else_def)

lemma ticks_flush:
  "length (immediates s) \<le> k \<Longrightarrow>
     events (run L s (replicate k Tick)) = events s @ map ev_of (immediates s)"
proof (induction k arbitrary: s)
  case 0
  then show ?case by simp
next
  case (Suc k)
  show ?case
  proof (cases "immediates s")
    case Nil
    have "run L s (replicate j Tick) = s" for j
      using Nil by (induction j) simp_all
    with Nil show ?thesis by simp
  next
    case (Cons x rest)
    with Suc.prems have "length (immediates (run_imm x (s\<lparr>immediates := rest\<rparr>))) \<le> k"
      by (simp add: run_imm_trace emit_def)
    from Suc.IH [OF this] Cons show ?thesis
      by (simp add: run_imm_trace emit_def)
  qed
qed

lemma requests_not_terminal:
  "filter is_response_imm q = [] \<Longrightarrow> filter terminal (map ev_of q) = []"
proof (induction q)
  case Nil
  then show ?case by simp
next
  case (Cons x q)
  then show ?case by (cases x) (simp_all split: if_splits)
qed

text \<open>
  C3 as stated fails when a redirect leads to a protocol that the guard of \<^verbatim>\<open>get\<close> refuses:
  the chain of one redirect ends in \<^verbatim>\<open>UnsupportedProtocolError\<close>, with no \<^verbatim>\<open>response\<close> event.
\<close>

theorem redirect_chain_counterexample:
  "events (run ex_lib (requestAsEventEmitter ex_lib ex_opts)
       [Tick, Respond 0 (ex_res 302 (Some ''ftp://b/'')), Tick])
     = [ERequest 0,
        ERedirect 0 ((ex_res 302 (Some ''ftp://b/''))\<lparr>url := ''http://a/'', res_requestUrl := ''http://a/''\<rparr>)
          (ex_opts\<lparr>protocol := Some ''ftp:'', href := Some ''ftp://b/''\<rparr>),
        EError (UnsupportedProtocolError (ex_opts\<lparr>protocol := Some ''ftp:'', href := Some ''ftp://b/''\<rparr>)) None]"
  by (simp add: ex_defs)

text \<open>
  C3, as amended: for a descriptor with \<^verbatim>\<open>followRedirect\<close>, method \<^verbatim>\<open>GET\<close> and a supported
  protocol, a chain of at most 10 redirects, each to a non-empty URL of a supported
  protocol, the transport making each request of the chain, then an answer that is not a
  redirect with a location: once the queued
  callbacks have run, the only terminal event is the \<^verbatim>\<open>response\<close> of the last request, with
  \<^verbatim>\<open>url\<close> the target of the last redirect (the request URL when there is none) and
  \<^verbatim>\<open>requestUrl\<close> the request URL.
\<close>

theorem redirect_chain_response:
  assumes "followRedirect opts" and "method_name opts = ''GET''" and "supported opts"
    and "chain_ok L opts (map snd hops)" and "length hops \<le> 10"
    and "\<not> (isRedirect L (statusCode final) \<and> location final \<noteq> None)"
    and "length hops + 2 \<le> k"
    and "request_throws L opts = None"
  shows "filter terminal (events (run L (requestAsEventEmitter L opts)
            (deliver 0 (hops @ [(t, final)]) @ replicate k Tick)))
         = [EResponse (length hops)
              (final\<lparr>url := last_url L (requestUrl_of L opts) opts (map snd hops),
                     res_requestUrl := requestUrl_of L opts, decompressed := True\<rparr>)]"
proof -
  define n where "n = length hops"
  define o' where "o' = last_opts L opts (map snd hops)"
  define u where "u = last_url L (requestUrl_of L opts) opts (map snd hops)"
  define s1 where "s1 = run L (requestAsEventEmitter L opts) (deliver 0 hops)"
  define s2 where "s2 = run L s1 (replicate t Tick)"
  define s3 where "s3 = step L (Respond n final) s2"
  have dl: "deliver i (hs @ [(t, final)]) = deliver i hs @ replicate t Tick @ [Respond (i + length hs) final]"
    for i and hs :: "(nat \<times> response) list"
    by (induction hs arbitrary: i) auto
  have "awaiting s1 (0 + length hops) o' (0 + length hops) u (requestUrl_of L opts)"
    unfolding s1_def o'_def u_def using assms(1-5,8)
    by (intro chain_awaiting start_awaiting) simp_all
  then have "awaiting s2 n o' n u (requestUrl_of L opts)"
    unfolding s2_def n_def using ticks_awaiting by fastforce
  then have a: "inflight s2 = [(n, o')]" "or_else (redirectUrl s2) (requestUrl s2) = u"
    "requestUrl s2 = requestUrl_of L opts" "filter terminal (events s2) = []"
    "filter is_response_imm (immediates s2) = []" "length (immediates s2) \<le> Suc n"
    by (auto simp: awaiting_def)
  have m: "method_name o' = ''GET''"
    unfolding o'_def using assms(2) by (induction hops arbitrary: opts) simp_all
  have "\<not> follows L o' final"
    using assms(6) by (simp add: follows_def)
  with a(1) have s3: "events s3 = events s2"
    "immediates s3 = immediates s2 @ [EmitResponse n (method_name o') (stamp s2 final)]"
    by (simp_all add: s3_def on_response_def Let_def) (simp_all add: answered_def)
  have "length (immediates s3) \<le> k"
    using a(6) assms(7) by (simp add: s3 n_def)
  from ticks_flush [OF this, of L]
  have "filter terminal (events (run L s3 (replicate k Tick)))
          = [EResponse n ((stamp s2 final)\<lparr>decompressed := True\<rparr>)]"
    using a(4,5) by (simp add: s3 m requests_not_terminal)
  moreover have "run L (requestAsEventEmitter L opts) (deliver 0 (hops @ [(t, final)]) @ replicate k Tick)
      = run L s3 (replicate k Tick)"
    by (simp add: dl run_append s1_def s2_def s3_def n_def)
  ultimately show ?thesis
    using a(2,3) by (simp add: stamp_def n_def u_def)
qed

theorem redirect_chain_response_witness:
  "followRedirect ex_opts \<and> method_name ex_opts = ''GET'' \<and> supported ex_opts \<and>
   request_throws ex_lib ex_opts = None \<and>
   chain_ok ex_lib ex_opts (map snd [(1, ex_res 301 (Some ''http://b/''))]) \<and>
   length [(1::nat, ex_res 301 (Some ''http://b/''))] \<le> 10 \<and>
   \<not> (isRedirect ex_lib (statusCode (ex_res 200 None)) \<and> location (ex_res 200 None) \<noteq> None) \<and>
   filter terminal (events (run ex_lib (requestAsEventEmitter ex_lib ex_opts)
       (deliver 0 ([(1, ex_res 301 (Some ''http://b/''))] @ [(1, ex_res 200 None)]) @ replicate 3 Tick)))
     = [EResponse 1 ((ex_res 200 None)\<lparr>url := ''http://b/'', res_requestUrl := ''http://a/'',
           decompressed := True\<rparr>)]"
proof -
  have a: "followRedirect ex_opts" "method_name ex_opts = ''GET''" "supported ex_opts"
    by (simp_all add: ex_opts_def supported_def)
  have b: "chain_ok ex_lib ex_opts (map snd [(1, ex_res 301 (Some ''http://b/''))])"
    by (simp add: hop_def ex_defs)
  have c: "\<not> (isRedirect ex_lib (statusCode (ex_res 200 None)) \<and> location (ex_res 200 None) \<noteq> None)"
    by (simp add: ex_res_def)
  have d: "last_url ex_lib (requestUrl_of ex_lib ex_opts) ex_opts (map snd [(1, ex_res 301 (Some ''http://b/''))])
        = ''http://b/''" "requestUrl_of ex_lib ex_opts = ''http://a/''"
    by (simp_all add: ex_defs)
  have e: "request_throws ex_lib ex_opts = None"
    by (simp add: ex_lib_simps)
  from redirect_chain_response [OF a b _ c _ e, of 3 1] a b c d e show ?thesis
    by simp
qed

section \<open>Order of the events of one request\<close>

lemma requested_simps [simp]:
  "requested [] = {}"
  "requested (ERequest n # es) = insert n (requested es)"
  "requested (EResponse m r # es) = requested es"
  "requested (ERedirect m r opts # es) = requested es"
  "requested (EError err ro # es) = requested es"
  "requested (xs @ ys) = requested xs \<union> requested ys"
  by (auto simp: requested_def)

lemma request_first_append:
  "request_first seen (xs @ ys) = (request_first seen xs \<and> request_first (seen \<union> requested xs) ys)"
proof (induction seen xs rule: request_first.induct)
  case (2 seen n es)
  then show ?case by (simp add: Un_commute insert_commute Un_insert_left)
qed (simp_all)

lemma request_first_mono:
  "request_first A es \<Longrightarrow> A \<subseteq> B \<Longrightarrow> request_first B es"
proof (induction A es arbitrary: B rule: request_first.induct)
  case (2 seen n es)
  from "2.prems" have "insert n seen \<subseteq> insert n B" by auto
  with 2 show ?case by simp
qed auto

lemma emit_linked:
  assumes "linked s" and "\<And>n r. ev \<noteq> EResponse n r"
  shows "linked (emit ev s)"
proof -
  have "request_first seen [ev]" for seen
    using assms(2) by (cases ev) auto
  moreover have "requested (events s) \<subseteq> requested (events s @ [ev])"
    by simp
  ultimately show ?thesis
    using assms(1)
    by (cases ev)
       (auto simp: linked_def pending_trace_def emit_def request_first_append
             elim: request_first_mono)
qed

lemma linked_irrelevant [simp]:
  "linked (s\<lparr>uncaught := u\<rparr>) = linked s"
  "linked (s\<lparr>crashed := cr\<rparr>) = linked s"
  "linked (s\<lparr>redirectCount := c\<rparr>) = linked s"
  "linked (s\<lparr>retryCount := k\<rparr>) = linked s"
  "linked (s\<lparr>redirectUrl := ru\<rparr>) = linked s"
  "linked (s\<lparr>timers := ts\<rparr>) = linked s"
  "linked (s\<lparr>armed := a\<rparr>) = linked s"
  by (simp_all add: linked_def pending_trace_def)

lemma emit_error_linked: "linked s \<Longrightarrow> linked (emit_error err r s)"
  by (simp add: emit_error_def emit_linked)

lemma get_linked:
  assumes "linked s"
  shows "linked (get L opts s)"
proof (cases "supported opts")
  case True
  with assms show ?thesis
    by (cases "request_throws L opts")
       (auto simp: get_def linked_def pending_trace_def request_first_append)
next
  case False
  with assms show ?thesis
    by (simp add: get_def emit_error_linked)
qed

lemma answered_linked: "linked s \<Longrightarrow> linked (answered n s)"
  by (auto simp: linked_def pending_trace_def answered_def)

lemma answered_trace [simp]: "pending_trace (answered n s) = pending_trace s"
  by (simp add: pending_trace_def answered_def)

lemma on_response_linked:
  assumes "linked s" and "n \<in> requested (pending_trace s)"
  shows "linked (on_response L n opts res s)"
proof -
  have "linked (s\<lparr>immediates := immediates s @ [EmitResponse n m r]\<rparr>)" for m r
    using assms by (auto simp: linked_def pending_trace_def request_first_append)
  with assms(1) show ?thesis
    by (simp add: on_response_def Let_def emit_error_linked get_linked emit_linked)
qed

lemma on_error_linked: "linked s \<Longrightarrow> linked (on_error opts err s)"
  by (simp add: on_error_def Let_def emit_error_linked)

lemma tick_linked:
  assumes "linked s" and "immediates s = i # rest"
  shows "linked (run_imm i (s\<lparr>immediates := rest\<rparr>))"
  using assms by (simp add: run_imm_trace linked_def pending_trace_def emit_def)

lemma inflight_requested:
  assumes "linked s" and "map_of (inflight s) n = Some opts"
  shows "n \<in> requested (pending_trace s)"
proof -
  from assms(2) have "(n, opts) \<in> set (inflight s)"
    by (rule map_of_SomeD)
  then have "n \<in> fst ` set (inflight s)"
    by force
  with assms(1) show ?thesis
    by (auto simp: linked_def)
qed

lemma step_linked: "linked s \<Longrightarrow> linked (step L a s)"
proof (cases a)
  case Tick
  assume "linked s"
  with Tick show ?thesis
    by (cases "immediates s") (simp_all add: tick_linked)
next
  case (Respond n res)
  assume "linked s"
  with Respond show ?thesis
    by (cases "map_of (inflight s) n")
       (simp_all add: on_response_linked answered_linked inflight_requested)
next
  case (Fail n err)
  assume "linked s"
  with Fail show ?thesis
    by (cases "map_of (armed s) n") (simp_all add: on_error_linked disarmed_def)
next
  case (Timeout k)
  assume "linked s"
  with Timeout show ?thesis
    by (simp add: get_linked)
qed

lemma run_linked: "linked s \<Longrightarrow> linked (run L s acts)"
  by (induction acts arbitrary: s) (simp_all add: step_linked)

lemma start_linked: "linked (requestAsEventEmitter L opts)"
  unfolding requestAsEventEmitter_def
  by (rule get_linked) (simp add: linked_def pending_trace_def)

lemma request_first_split:
  "request_first seen (xs @ EResponse n r # ys) \<Longrightarrow> n \<in> seen \<or> ERequest n \<in> set xs"
  by (auto simp: request_first_append requested_def)

text \<open>
  C9 as stated fails for the \<^verbatim>\<open>error\<close> event: it is emitted inside the error handler of the
  request, while the \<^verbatim>\<open>request\<close> event waits in the queue of \<^verbatim>\<open>setImmediate\<close>. When the
  transport fails before that callback has run, \<^verbatim>\<open>error\<close> comes first.
\<close>

theorem request_before_response_counterexample:
  "events (run ex_lib (requestAsEventEmitter ex_lib ex_opts) [Fail 0 ''ECONNREFUSED'', Tick])
     = [EError (RequestError ''ECONNREFUSED'' ex_opts) None, ERequest 0]"
  by (simp add: ex_defs)

text \<open>
  C9, as amended: on every run, a \<^verbatim>\<open>response\<close> event of a request comes after the \<^verbatim>\<open>request\<close>
  event of the same request; and an answer that is not a redirect to follow publishes
  nothing by itself, it queues the \<^verbatim>\<open>response\<close> callback behind the callbacks already queued.
\<close>

theorem request_before_response:
  "(events (run L (requestAsEventEmitter L opts) acts) = xs @ EResponse n r # ys
      \<longrightarrow> ERequest n \<in> set xs) \<and>
   (map_of (inflight s) m = Some o' \<and> \<not> follows L o' (stamp s res) \<longrightarrow>
      events (step L (Respond m res) s) = events s \<and>
      immediates (step L (Respond m res) s)
        = immediates s @ [EmitResponse m (method_name o')
            (stamp s res)])"
proof -
  have "linked (run L (requestAsEventEmitter L opts) acts)"
    by (rule run_linked) (rule start_linked)
  then have "request_first {} (events (run L (requestAsEventEmitter L opts) acts))"
    by (simp add: linked_def pending_trace_def request_first_append)
  then have "ERequest n \<in> set xs"
    if "events (run L (requestAsEventEmitter L opts) acts) = xs @ EResponse n r # ys"
    using that request_first_split [of "{}" xs n r ys] by simp
  then show ?thesis
    by (simp add: on_response_def Let_def answered_def stamp_def)
qed

theorem request_before_response_witness:
  "events (run ex_lib (requestAsEventEmitter ex_lib ex_opts) [Tick, Respond 0 (ex_res 200 None), Tick])
     = [ERequest 0] @ EResponse 0 ((ex_res 200 None)\<lparr>url := ''http://a/'', res_requestUrl := ''http://a/'',
           decompressed := True\<rparr>) # [] \<and>
   ERequest 0 \<in> set [ERequest 0 :: string event] \<and>
   map_of (inflight (requestAsEventEmitter ex_lib ex_opts)) 0 = Some ex_opts \<and>
   \<not> follows ex_lib ex_opts (stamp (requestAsEventEmitter ex_lib ex_opts) (ex_res 200 None)) \<and>
   events (step ex_lib (Respond 0 (ex_res 200 None)) (requestAsEventEmitter ex_lib ex_opts)) = []"
proof -
  have a: "events (run ex_lib (requestAsEventEmitter ex_lib ex_opts) [Tick, Respond 0 (ex_res 200 None), Tick])
     = [ERequest 0] @ EResponse 0 ((ex_res 200 None)\<lparr>url := ''http://a/'', res_requestUrl := ''http://a/'',
           decompressed := True\<rparr>) # []"
    and b: "map_of (inflight (requestAsEventEmitter ex_lib ex_opts)) 0 = Some ex_opts"
    and c: "\<not> follows ex_lib ex_opts (stamp (requestAsEventEmitter ex_lib ex_opts) (ex_res 200 None))"
    and d: "events (requestAsEventEmitter ex_lib ex_opts) = []"
    by (simp_all add: ex_defs)
  from request_before_response [of ex_lib ex_opts "[Tick, Respond 0 (ex_res 200 None), Tick]"
      "[ERequest 0]" 0 "(ex_res 200 None)\<lparr>url := ''http://a/'', res_requestUrl := ''http://a/'',
           decompressed := True\<rparr>" "[]" "requestAsEventEmitter ex_lib ex_opts" 0 ex_opts "ex_res 200 None"]
    a b c d
  show ?thesis
    by (simp del: step.simps run.simps)
qed

section \<open>The redirect limit\<close>

lemma idle_step:
  assumes "outstanding s = 0" and "orderly_at a s"
  shows "outstanding (step L a s) = 0 \<and> nextReq (step L a s) = nextReq s \<and>
         filter terminal (events (step L a s)) = filter terminal (events s)"
proof (cases a)
  case Tick
  show ?thesis
  proof (cases "immediates s")
    case Nil
    with Tick assms show ?thesis by simp
  next
    case (Cons i rest)
    with assms obtain k where "i = EmitRequest k"
      by (cases i) (auto simp: outstanding_def)
    with Cons Tick assms show ?thesis
      by (simp add: outstanding_def emit_def)
  qed
next
  case (Respond n res)
  have "map_of (inflight s) n = None"
  proof (cases "map_of (inflight s) n")
    case (Some opts)
    then have "n \<in> fst ` set (inflight s)"
      by (force dest: map_of_SomeD)
    with assms(2) Respond Some have "(n, opts) \<in> set (live s)"
      by (intro live_member) simp_all
    with assms(1) show ?thesis by (simp add: outstanding_def)
  qed simp
  with Respond assms show ?thesis by simp
next
  case (Fail n err)
  have "map_of (armed s) n = None"
  proof (cases "map_of (armed s) n")
    case (Some opts)
    then have a: "n \<in> fst ` set (armed s)"
      by (force dest: map_of_SomeD)
    with assms(2) Fail obtain o' where "(n, o') \<in> set (inflight s)"
      by auto
    with a have "(n, o') \<in> set (live s)"
      by (auto simp: live_def)
    with assms(1) show ?thesis by (simp add: outstanding_def)
  qed simp
  with Fail assms show ?thesis by simp
next
  case (Timeout k)
  with assms show ?thesis by (simp add: outstanding_def)
qed

lemma idle_run:
  "outstanding s = 0 \<Longrightarrow> orderly L s acts \<Longrightarrow>
     outstanding (run L s acts) = 0 \<and> nextReq (run L s acts) = nextReq s \<and>
     filter terminal (events (run L s acts)) = filter terminal (events s)"
proof (induction acts arbitrary: s)
  case Nil
  then show ?case by simp
next
  case (Cons a acts)
  from Cons.prems have o: "orderly_at a s" and r: "orderly L (step L a s) acts"
    by simp_all
  from idle_step [OF Cons.prems(1) o, of L] Cons.IH [OF _ r]
  show ?case by (simp del: step.simps)
qed

text \<open>
  C4 as stated fails when the transport raises an error on the request after the response
  callback has published \<^verbatim>\<open>MaxRedirectsError\<close>, as a socket error while \<^verbatim>\<open>res.resume()\<close> reads
  the body does: the listener of line 72 is still registered, so a second \<^verbatim>\<open>error\<close> event
  follows (or, when the policy grants a retry, a further attempt).
\<close>

theorem max_redirects_counterexample:
  "filter terminal (events (run ex_lib (requestAsEventEmitter ex_lib ex_opts)
       (deliver 0 (replicate 10 (0, ex_res 302 (Some ''http://a/'')))
          @ [Respond 10 (ex_res 302 (Some ''http://a/'')), Fail 10 ''ECONNRESET''])))
     = [EError (MaxRedirectsError 302 ex_opts)
          (Some ((ex_res 302 (Some ''http://a/''))\<lparr>url := ''http://a/'', res_requestUrl := ''http://a/''\<rparr>)),
        EError (RequestError ''ECONNRESET'' ex_opts) None]"
  by (simp add: ex_defs eval_nat_numeral)

text \<open>
  C4, as amended: when the response to a request is a redirect to follow and the count,
  once incremented, exceeds 10, the callback publishes \<^verbatim>\<open>MaxRedirectsError\<close> with the status
  code of the response and does nothing else: no request, no timer, no queued callback,
  and the error listener of the request stays registered. On an orderly schedule no
  terminal event precedes it, and whatever orderly actions follow, it stays the only
  terminal event and no further request is made.
\<close>

theorem max_redirects_error:
  assumes "map_of (inflight s) n = Some opts" and "follows L opts res"
    and "10 < redirectCount s + 1"
  shows "let s' = step L (Respond n res) s;
             e = EError (MaxRedirectsError (statusCode res) opts) (Some (stamp s res))
         in events s' = events s @ [e] \<and> nextReq s' = nextReq s \<and> timers s' = timers s \<and>
            immediates s' = immediates s \<and> armed s' = armed s \<and>
            (s = run L (requestAsEventEmitter L opts0) acts \<and>
             orderly L (requestAsEventEmitter L opts0) (acts @ Respond n res # rest) \<longrightarrow>
               filter terminal (events (run L s' rest)) = [e] \<and>
               nextReq (run L s' rest) = nextReq s \<and> live (run L s' rest) = [] \<and>
               timers (run L s' rest) = [])"
proof -
  define s' where "s' = step L (Respond n res) s"
  define e where "e = EError (MaxRedirectsError (statusCode res) opts) (Some (stamp s res))"
  have ev: "events s' = events s @ [e]" and nr: "nextReq s' = nextReq s"
    and rest: "timers s' = timers s" "immediates s' = immediates s" "armed s' = armed s"
    using assms
    by (simp_all add: s'_def e_def on_response_def Let_def emit_error_def emit_def)
       (simp_all add: answered_def)
  have "filter terminal (events (run L s' rest)) = [e] \<and>
      nextReq (run L s' rest) = nextReq s \<and> live (run L s' rest) = [] \<and>
      timers (run L s' rest) = []"
    if s: "s = run L (requestAsEventEmitter L opts0) acts"
      and o: "orderly L (requestAsEventEmitter L opts0) (acts @ Respond n res # rest)"
  proof -
    from o have o1: "orderly L (requestAsEventEmitter L opts0) acts"
      and o2: "orderly_at (Respond n res) s" and o3: "orderly L s' rest"
      by (simp_all add: orderly_append s s'_def del: step.simps)
    have bal: "ended s + outstanding s = 1"
      unfolding s using o1 by (rule reachable_balance)
    have "n \<in> fst ` set (inflight s)"
      using assms(1) by (force dest: map_of_SomeD)
    with o2 assms(1) have "(n, opts) \<in> set (live s)"
      by (intro live_member) simp_all
    note alone = live_alone [OF bal this]
    have "fresh s"
      unfolding s by (rule run_fresh) (rule start_fresh)
    with bal o2 have "ended s' + outstanding s' = 1"
      unfolding s'_def by (intro step_balance)
    with ev alone(3) have idle: "outstanding s' = 0" and t: "filter terminal (events s') = [e]"
      by (simp_all add: ended_def terminals_def e_def)
    from idle_run [OF idle o3] t nr show ?thesis
      by (simp add: outstanding_def)
  qed
  with ev nr rest show ?thesis
    unfolding s'_def [symmetric] e_def [symmetric] Let_def by blast
qed

lemma covered_orderly:
  assumes "fst ` set (inflight s) \<subseteq> fst ` set (armed s)"
    and "\<forall>a \<in> set acts. \<forall>n err. a \<noteq> Fail n err"
  shows "orderly L s acts"
  using assms
proof (induction acts arbitrary: s)
  case Nil
  then show ?case by simp
next
  case (Cons a acts)
  have get: "fst ` set (inflight (get L opts x)) \<subseteq> fst ` set (armed (get L opts x))"
    if "fst ` set (inflight x) \<subseteq> fst ` set (armed x)" for opts and x :: "'a engine"
    using that by (auto simp: get_def emit_error_def emit_def split: option.splits)
  have "fst ` set (inflight (step L a s)) \<subseteq> fst ` set (armed (step L a s))"
  proof (cases a)
    case Tick
    with Cons.prems(1) show ?thesis
      by (cases "immediates s") (simp_all add: run_imm_trace emit_def)
  next
    case (Respond n res)
    have "fst ` set (inflight (on_response L n opts res (answered n s)))
        \<subseteq> fst ` set (armed (on_response L n opts res (answered n s)))" for opts
    proof -
      have a: "fst ` set (inflight (answered n s)) \<subseteq> fst ` set (armed (answered n s))"
        using Cons.prems(1) by (auto simp: answered_def)
      have "fst ` set (inflight (get L ropts (emit ev (answered n s\<lparr>redirectCount := c, redirectUrl := u\<rparr>))))
          \<subseteq> fst ` set (armed (get L ropts (emit ev (answered n s\<lparr>redirectCount := c, redirectUrl := u\<rparr>))))"
        for ropts ev c u
        using a by (intro get) (simp add: emit_def)
      with a show ?thesis
        by (simp add: on_response_def Let_def emit_error_def emit_def)
    qed
    with Respond Cons.prems(1) show ?thesis
      by (cases "map_of (inflight s) n") simp_all
  next
    case (Fail n err)
    with Cons.prems(2) show ?thesis by auto
  next
    case (Timeout k)
    have "fst ` set (inflight (s\<lparr>timers := ts\<rparr>)) \<subseteq> fst ` set (armed (s\<lparr>timers := ts\<rparr>))" for ts
      using Cons.prems(1) by simp
    with Timeout Cons.prems(1) show ?thesis
      by (simp add: get)
  qed
  moreover have "orderly_at a s"
    using Cons.prems by (cases a) auto
  ultimately show ?case
    using Cons.prems(2) by (simp add: Cons.IH del: step.simps)
qed

lemma deliver_no_fail: "\<forall>a \<in> set (deliver i hops :: 'e action list). \<forall>n err. a \<noteq> Fail n err"
  by (induction i hops rule: deliver.induct) auto

lemma start_covered:
  "fst ` set (inflight (requestAsEventEmitter L opts)) \<subseteq> fst ` set (armed (requestAsEventEmitter L opts))"
  by (simp add: requestAsEventEmitter_def get_def emit_error_def emit_def split: option.split)

theorem max_redirects_error_witness:
  "map_of (inflight (run ex_lib (requestAsEventEmitter ex_lib ex_opts)
       (deliver 0 (replicate 10 (0, ex_res 302 (Some ''http://a/'')))))) 10 = Some ex_opts \<and>
   follows ex_lib ex_opts (ex_res 302 (Some ''http://a/'')) \<and>
   10 < redirectCount (run ex_lib (requestAsEventEmitter ex_lib ex_opts)
       (deliver 0 (replicate 10 (0, ex_res 302 (Some ''http://a/''))))) + 1 \<and>
   orderly ex_lib (requestAsEventEmitter ex_lib ex_opts)
     (deliver 0 (replicate 10 (0, ex_res 302 (Some ''http://a/'')))
        @ Respond 10 (ex_res 302 (Some ''http://a/'')) # [Tick, Tick]) \<and>
   filter terminal (events (run ex_lib
       (step ex_lib (Respond 10 (ex_res 302 (Some ''http://a/'')))
          (run ex_lib (requestAsEventEmitter ex_lib ex_opts)
             (deliver 0 (replicate 10 (0, ex_res 302 (Some ''http://a/'')))))) [Tick, Tick]))
     = [EError (MaxRedirectsError 302 ex_opts)
          (Some ((ex_res 302 (Some ''http://a/''))\<lparr>url := ''http://a/'', res_requestUrl := ''http://a/''\<rparr>))]"
proof -
  define r where "r = ex_res 302 (Some ''http://a/'')"
  define s where "s = run ex_lib (requestAsEventEmitter ex_lib ex_opts) (deliver 0 (replicate 10 (0, r)))"
  have h: "hop ex_lib ex_opts r = ex_opts" and tg: "target ex_lib ex_opts r = ''http://a/''"
    by (simp_all add: hop_def r_def ex_defs)
  have ok: "chain_ok ex_lib ex_opts (replicate n r)" for n
    by (induction n) (simp_all add: h tg, simp_all add: r_def ex_defs)
  have lo: "last_opts ex_lib ex_opts (replicate n r) = ex_opts" for n
    by (induction n) (simp_all add: h)
  have lu: "last_url ex_lib u ex_opts (replicate (Suc n) r) = ''http://a/''" for n u
    by (induction n arbitrary: u) (simp_all add: h tg)
  have st: "awaiting (requestAsEventEmitter ex_lib ex_opts) 0 ex_opts 0 ''http://a/'' ''http://a/''"
    using start_awaiting [of ex_opts ex_lib] by (simp add: ex_defs)
  have "awaiting s (0 + length (replicate 10 (0::nat, r))) (last_opts ex_lib ex_opts (map snd (replicate 10 (0::nat, r))))
      (0 + length (replicate 10 (0::nat, r))) (last_url ex_lib ''http://a/'' ex_opts (map snd (replicate 10 (0::nat, r))))
      ''http://a/''"
    unfolding s_def using st
    by (rule chain_awaiting) (simp_all add: ok, simp_all add: ex_opts_def)
  then have aw: "awaiting s 10 ex_opts 10 ''http://a/'' ''http://a/''"
    using lu [of "''http://a/''" 9] by (simp add: lo)
  have a: "map_of (inflight s) 10 = Some ex_opts" and c: "10 < redirectCount s + 1"
    and d: "stamp s r = r\<lparr>url := ''http://a/'', res_requestUrl := ''http://a/''\<rparr>"
    using aw by (auto simp: awaiting_def stamp_def)
  have b: "follows ex_lib ex_opts r"
    by (simp add: r_def ex_defs)
  have "\<forall>a \<in> set (deliver 0 (replicate 10 (0, r)) @ Respond 10 r # [Tick, Tick] :: string action list).
      \<forall>n err. a \<noteq> Fail n err"
    using deliver_no_fail [of 0 "replicate 10 (0, r)"] by auto
  with start_covered
  have o: "orderly ex_lib (requestAsEventEmitter ex_lib ex_opts)
      (deliver 0 (replicate 10 (0, r)) @ Respond 10 r # [Tick, Tick])"
    by (rule covered_orderly)
  from max_redirects_error [OF a b c, of ex_opts "deliver 0 (replicate 10 (0, r))" "[Tick, Tick]"]
    a b c d o s_def
  have "map_of (inflight s) 10 = Some ex_opts \<and> follows ex_lib ex_opts r \<and> 10 < redirectCount s + 1 \<and>
    orderly ex_lib (requestAsEventEmitter ex_lib ex_opts)
      (deliver 0 (replicate 10 (0, r)) @ Respond 10 r # [Tick, Tick]) \<and>
    filter terminal (events (run ex_lib (step ex_lib (Respond 10 r) s) [Tick, Tick]))
      = [EError (MaxRedirectsError 302 ex_opts) (Some (r\<lparr>url := ''http://a/'', res_requestUrl := ''http://a/''\<rparr>))]"
    by (simp add: Let_def r_def ex_res_def del: step.simps run.simps orderly.simps deliver.simps)
  then show ?thesis
    unfolding s_def r_def .
qed

section \<open>Retry or fail\<close>

lemma get_accepted: "pending_accepted L s \<Longrightarrow> pending_accepted L (get L opts s)"
  by (auto simp: pending_accepted_def accepted_def get_def emit_error_def emit_def
      split: option.split)

lemma step_accepted:
  assumes "pending_accepted L s"
  shows "pending_accepted L (step L a s)"
proof (cases a)
  case Tick
  with assms show ?thesis
    by (cases "immediates s") (simp_all add: pending_accepted_def accepted_def run_imm_trace emit_def)
next
  case (Respond n res)
  have a: "pending_accepted L (answered n s)"
    using assms by (simp add: pending_accepted_def accepted_def answered_def)
  have "pending_accepted L (on_response L n opts res (answered n s))" for opts
  proof -
    have "pending_accepted L (emit ev (answered n s\<lparr>redirectCount := c, redirectUrl := u\<rparr>))"
      for ev c u
      using a by (simp add: pending_accepted_def accepted_def emit_def)
    moreover have "pending_accepted L (emit_error e r (answered n s\<lparr>redirectCount := c\<rparr>))"
      for e r c
      using a by (simp add: pending_accepted_def accepted_def emit_error_def emit_def)
    moreover have "pending_accepted L (answered n s\<lparr>immediates := q\<rparr>)" for q
      using a by (simp add: pending_accepted_def accepted_def)
    ultimately show ?thesis
      by (simp add: on_response_def Let_def get_accepted)
  qed
  with Respond assms show ?thesis
    by (cases "map_of (inflight s) n") simp_all
next
  case (Fail n err)
  have "pending_accepted L (on_error opts err (disarmed n s))"
    if "map_of (armed s) n = Some opts" for opts
  proof -
    from that have "(n, opts) \<in> set (armed s)"
      by (rule map_of_SomeD)
    with assms have "supported opts \<and> request_throws L opts = None"
      by (auto simp: pending_accepted_def accepted_def)
    with assms show ?thesis
      by (simp add: on_error_def Let_def pending_accepted_def accepted_def emit_error_def emit_def
          disarmed_def)
  qed
  with Fail assms show ?thesis
    by (cases "map_of (armed s) n") simp_all
next
  case (Timeout k)
  have "pending_accepted L (s\<lparr>timers := take k (timers s) @ drop (Suc k) (timers s)\<rparr>)"
    using assms by (auto simp: pending_accepted_def accepted_def dest: in_set_takeD in_set_dropD)
  with Timeout assms show ?thesis
    by (simp add: get_accepted)
qed

lemma reachable_accepted:
  "pending_accepted L (run L (requestAsEventEmitter L opts) acts)"
proof -
  have "pending_accepted L s \<Longrightarrow> pending_accepted L (run L s acts)" for s
    by (induction acts arbitrary: s) (simp_all add: step_accepted del: step.simps)
  moreover have "pending_accepted L (requestAsEventEmitter L opts)"
    unfolding requestAsEventEmitter_def
    by (rule get_accepted) (simp add: pending_accepted_def accepted_def)
  ultimately show ?thesis .
qed

text \<open>
  C6: on every schedule, when an error is raised on a request whose listener is
  registered, the policy is asked about \<open>retryCount + 1\<close> and the error. A positive delay
  sets one timer for the same descriptor and publishes nothing, and when that timer fires
  the next request is made with that descriptor. The stop value 0 publishes
  \<^verbatim>\<open>RequestError\<close> wrapping the error, and sets no timer.
\<close>

theorem retry_or_request_error:
  assumes "s = run L (requestAsEventEmitter L opts0) acts"
    and "map_of (armed s) n = Some opts"
  shows "let backoff = retries opts (int (retryCount s + 1)) err;
             s' = step L (Fail n err) s;
             s'' = step L (Timeout (length (timers s))) s'
         in retryCount s' = retryCount s + 1 \<and> nextReq s' = nextReq s \<and> inflight s' = inflight s \<and>
            (0 < backoff \<longrightarrow>
               events s' = events s \<and> timers s' = timers s @ [(backoff, opts)] \<and>
               inflight s'' = inflight s @ [(nextReq s, opts)] \<and> timers s'' = timers s \<and>
               events s'' = events s) \<and>
            (backoff = 0 \<longrightarrow>
               events s' = events s @ [EError (RequestError err opts) None] \<and>
               timers s' = timers s)"
proof -
  have "pending_accepted L s"
    unfolding assms(1) by (rule reachable_accepted)
  moreover from assms(2) have "(n, opts) \<in> set (armed s)"
    by (rule map_of_SomeD)
  ultimately have sup: "supported opts" "request_throws L opts = None"
    by (auto simp: pending_accepted_def accepted_def)
  define s1 where "s1 = disarmed n s"
  have s1: "inflight s1 = inflight s" "timers s1 = timers s" "events s1 = events s"
    "retryCount s1 = retryCount s" "nextReq s1 = nextReq s"
    by (simp_all add: s1_def disarmed_def)
  have st: "step L (Fail n err) s = on_error opts err s1"
    using assms(2) by (simp add: s1_def)
  show ?thesis
    unfolding st Let_def
    using s1 sup by (simp add: on_error_def Let_def emit_error_def emit_def get_def)
qed

theorem retry_or_request_error_witness:
  "map_of (armed (run ex_lib (requestAsEventEmitter ex_lib ex_opts) [Tick])) 0 = Some ex_opts \<and>
   retries ex_opts (int (retryCount (run ex_lib (requestAsEventEmitter ex_lib ex_opts) [Tick]) + 1))
     ''ECONNRESET'' = 0 \<and>
   events (step ex_lib (Fail 0 ''ECONNRESET'') (run ex_lib (requestAsEventEmitter ex_lib ex_opts) [Tick]))
     = [ERequest 0, EError (RequestError ''ECONNRESET'' ex_opts) None] \<and>
   default_retries ex_lib 2 (int (retryCount (run ex_lib
       (requestAsEventEmitter ex_lib (ex_opts\<lparr>retries := default_retries ex_lib 2\<rparr>)) [Tick]) + 1))
     ''ECONNRESET'' = 2050 \<and>
   timers (step ex_lib (Fail 0 ''ECONNRESET'') (run ex_lib
       (requestAsEventEmitter ex_lib (ex_opts\<lparr>retries := default_retries ex_lib 2\<rparr>)) [Tick]))
     = [(2050, ex_opts\<lparr>retries := default_retries ex_lib 2\<rparr>)]"
proof -
  define s where "s = run ex_lib (requestAsEventEmitter ex_lib ex_opts) [Tick]"
  define d where "d = ex_opts\<lparr>retries := default_retries ex_lib 2\<rparr>"
  define s2 where "s2 = run ex_lib (requestAsEventEmitter ex_lib d) [Tick]"
  have a: "map_of (armed s) 0 = Some ex_opts"
    and b: "retries ex_opts (int (retryCount s + 1)) ''ECONNRESET'' = 0"
    and c: "events s = [ERequest 0]"
    by (simp_all add: s_def ex_defs)
  have a2: "map_of (armed s2) 0 = Some d" and c2: "timers s2 = []" and r2: "retryCount s2 = 0"
    by (simp_all add: s2_def d_def ex_defs)
  have rd: "retries d = default_retries ex_lib 2"
    by (simp add: d_def)
  have b2: "default_retries ex_lib 2 (int (retryCount s2 + 1)) ''ECONNRESET'' = 2050"
    by (simp add: r2 default_retries_def shl32_def ex_lib_simps double_defs)
  from retry_or_request_error [OF s_def a, of "''ECONNRESET''"] a b c
    retry_or_request_error [OF s2_def a2, of "''ECONNRESET''"] a2 b2 c2 rd
  have "map_of (armed s) 0 = Some ex_opts \<and>
    retries ex_opts (int (retryCount s + 1)) ''ECONNRESET'' = 0 \<and>
    events (step ex_lib (Fail 0 ''ECONNRESET'') s)
      = [ERequest 0, EError (RequestError ''ECONNRESET'' ex_opts) None] \<and>
    default_retries ex_lib 2 (int (retryCount s2 + 1)) ''ECONNRESET'' = 2050 \<and>
    timers (step ex_lib (Fail 0 ''ECONNRESET'') s2) = [(2050, d)]"
    by (simp add: Let_def del: step.simps)
  then show ?thesis
    unfolding s_def s2_def d_def .
qed

section \<open>The delay of the default retry policy\<close>

lemma shl32_small:
  assumes "0 \<le> b" and "b \<le> 30"
  shows "shl32 1 b = 2 ^ nat b"
proof -
  have m: "b mod 32 = b"
    using assms by simp
  have "nat b < 31"
    using assms by simp
  then have lt: "(2::int) ^ nat b < 2 ^ 31"
    by (intro power_strict_increasing) simp_all
  have ge: "- (2 ^ 31) \<le> (2::int) ^ nat b"
    by (rule order_trans [of _ 0]) simp_all
  have "push_bit (nat b) (1 :: 32 word) = word_of_int (2 ^ nat b)"
    by simp
  then have "sint (push_bit (nat b) (1 :: 32 word)) = signed_take_bit 31 (2 ^ nat b :: int)"
    by (simp only: sint_sbintrunc') simp
  also have "\<dots> = 2 ^ nat b"
    using ge lt by (rule signed_take_bit_int_eq_self)
  finally show ?thesis
    by (simp add: shl32_def m)
qed

text \<open>
  For an attempt number from 0 to 30 that the configured count allows and an error that
  may be retried, the policy returns \<open>2 ^ iter * 1000\<close> plus the noise, each operation
  rounded to a double; it returns 0 past the configured count and for an error that may
  not be retried. The descriptor gets this policy with the configured count, 2 when none
  is given.
\<close>

lemma default_retries_small:
  "(n < iter \<or> \<not> isRetryAllowed L err \<longrightarrow> default_retries L n iter err = 0) \<and>
   (iter \<le> n \<and> isRetryAllowed L err \<and> 0 \<le> iter \<and> iter \<le> 30 \<longrightarrow>
      default_retries L n iter err
        = fadd (fmul (2 ^ nat iter) 1000) (fmul (random L iter) 100)) \<and>
   (o_retries obj = None \<and> o_retries opts = None \<longrightarrow>
      retries (descriptor L (assign obj opts) b) = default_retries L 2) \<and>
   (o_retries opts = Some (Count n) \<longrightarrow>
      retries (descriptor L (assign obj opts) b) = default_retries L n)"
  by (auto simp: default_retries_def shl32_small descriptor_def assign_def later_def)

text \<open>
  The rounding shows in the result: with a noise just below 100 at attempt 30, the sum is
  exactly \<open>2 ^ 30 * 1000 + 100\<close>.
\<close>

lemma default_retries_rounded:
  "default_retries (ex_lib\<lparr>random := \<lambda>iter. 1 - 1 / 2 ^ 53\<rparr>) 30 30 ''ETIMEDOUT''
     = 2 ^ 30 * 1000 + 100"
  by (simp add: default_retries_def shl32_def ex_lib_def double_defs)

text \<open>
  C5: the factor of the delay is \<^verbatim>\<open>1 << iter\<close>, a shift of 32-bit integers, where the claim
  has \<open>2 ^ iter\<close>. With a configured count of 31, as in \<^verbatim>\<open>got('http://a/', {retries: 31})\<close>,
  the policy that \<^verbatim>\<open>normalizeArguments\<close> installs answers attempt 31 with a negative
  number: \<^verbatim>\<open>1 << 31\<close> is \<open>- 2147483648\<close>, and the noise here is 50.
\<close>

theorem default_retries_shift_overflow:
  "default_retries ex_lib 31 31 ''ETIMEDOUT'' = - 2147483648000 + 50 \<and>
   map_sum id (\<lambda>d. retries d 31 ''ETIMEDOUT'')
       (normalizeArguments ex_lib (UrlString ''http://a/'') (no_options\<lparr>o_retries := Some (Count 31)\<rparr>))
     = Inr (- 2147483648000 + 50)"
proof -
  have "default_retries ex_lib 31 31 ''ETIMEDOUT'' = - 2147483648000 + 50"
    by (simp add: default_retries_def shl32_def ex_lib_simps double_defs)
  moreover have "map_sum id retries
       (normalizeArguments ex_lib (UrlString ''http://a/'') (no_options\<lparr>o_retries := Some (Count 31)\<rparr>))
     = Inr (default_retries ex_lib 31)"
    by (simp add: normalizeArguments_def url_object_def unix_prefix_def nonempty_def assign_def
        later_def no_options_def descriptor_def ex_lib_simps Let_def)
  ultimately show ?thesis
    by (cases "normalizeArguments ex_lib (UrlString ''http://a/'')
          (no_options\<lparr>o_retries := Some (Count 31)\<rparr>)") auto
qed

section \<open>Status validation in buffered mode\<close>




section \<open>The streaming entry point\<close>

lemma stream_listeners_emitted:
  "emitted (fold (stream_listener opts) evs d) = emitted d @ map (proxy_of opts) evs"
  by (induction evs arbitrary: d) (simp_all add: stream_listener_def)

lemma stream_step_emitted:
  "emitted (stream_step L opts a d)
     = emitted d @ map (proxy_of opts)
         (drop (length (events (d_engine d))) (events (step L a (d_engine d))))"
  by (simp add: stream_step_def Let_def stream_listeners_emitted)

lemma asStream_returns:
  assumes "\<not> json opts" and "supported opts" and "request_throws L opts = None"
  shows "asStream L opts
     = Returns \<lparr>d_engine = (requestAsEventEmitter L opts)\<lparr>listening := True\<rparr>,
                writable = (\<not> body_truthy (body opts)), emitted = []\<rparr>"
  using assms by (simp add: asStream_def requestAsEventEmitter_def get_def Let_def thrown_def)

text \<open>
  C8: with JSON decoding requested, \<^verbatim>\<open>asStream\<close> throws before \<^verbatim>\<open>requestAsEventEmitter\<close> is
  called, so no engine exists, no request is made and nothing is emitted on the duplex;
  \<^verbatim>\<open>got.stream\<close> then throws as well, from the normalisation or from \<^verbatim>\<open>asStream\<close>.
\<close>

theorem stream_json_throws:
  "(json opts \<longrightarrow>
      asStream L opts = Throws (Error ''got can not be used as stream when options.json is used'') None) \<and>
   (flag (o_json (assign obj opts')) \<and> url_object L u = Inr obj \<longrightarrow>
      (\<exists>x. got_stream L u opts' = Throws x None))"
proof -
  have "\<exists>x. got_stream L u opts' = Throws x None"
    if "flag (o_json (assign obj opts'))" and "url_object L u = Inr obj"
  proof (cases "normalizeArguments L u opts'")
    case (Inl x)
    then show ?thesis by (simp add: got_stream_def)
  next
    case (Inr d)
    with that have "json d"
      by (auto simp: normalizeArguments_def descriptor_def Let_def split: option.splits)
    with Inr show ?thesis by (simp add: got_stream_def asStream_def)
  qed
  then show ?thesis
    by (simp add: asStream_def)
qed

theorem stream_json_throws_witness:
  "json (ex_opts\<lparr>json := True\<rparr>) \<and>
   asStream ex_lib (ex_opts\<lparr>json := True\<rparr>)
     = Throws (Error ''got can not be used as stream when options.json is used'') None \<and>
   got_stream ex_lib (UrlString ''http://a/'') (no_options\<lparr>o_json := Some True\<rparr>)
     = Throws (Error ''got can not be used as stream when options.json is used'') None"
proof -
  have "got_stream ex_lib (UrlString ''http://a/'') (no_options\<lparr>o_json := Some True\<rparr>)
     = Throws (Error ''got can not be used as stream when options.json is used'') None"
    by (simp add: got_stream_def normalizeArguments_def url_object_def assign_def later_def
        no_options_def nonempty_def unix_prefix_def descriptor_def asStream_def flag_def
        ex_lib_simps Let_def)
  with stream_json_throws [of "ex_opts\<lparr>json := True\<rparr>" ex_lib] show ?thesis
    by simp
qed

text \<open>
  C7: once \<^verbatim>\<open>asStream\<close> has returned, every \<^verbatim>\<open>error\<close> event of the engine and every response
  of a refused status is an \<^verbatim>\<open>error\<close> event on the duplex (\<open>stream_step_emitted\<close>). Not so for
  a descriptor whose protocol is not supported: \<^verbatim>\<open>get\<close> emits \<^verbatim>\<open>UnsupportedProtocolError\<close>
  inside \<^verbatim>\<open>requestAsEventEmitter\<close> (line 92), before line 197 attaches the listener that
  forwards errors to the duplex, and the emitter throws the error out of \<^verbatim>\<open>asStream\<close>.
\<close>

theorem stream_unsupported_protocol_throws:
  "escaped (asStream ex_lib (ex_opts\<lparr>protocol := Some ''ftp:''\<rparr>))
     = Some (Thrown (UnsupportedProtocolError (ex_opts\<lparr>protocol := Some ''ftp:''\<rparr>)))"
  by (simp add: asStream_def ex_defs)

section \<open>The buffered entry point\<close>

text \<open>
  C10: \<^verbatim>\<open>got\<close> returns a promise for every input. An exception of the normalisation is the
  reason with which the returned promise is rejected: a \<^verbatim>\<open>url\<close> that is neither a string
  nor an object, authentication inside the URL string, a body that one of the two checks
  refuses.
\<close>

theorem got_never_throws:
  "(\<exists>b. got L u opts = Inr b) \<and>
   (normalizeArguments L u opts = Inl x \<longrightarrow>
      map_sum id promise (got L u opts) = Inr (Rejected x None)) \<and>
   (u = UrlOther t \<longrightarrow>
      map_sum id promise (got L u opts)
        = Inr (Rejected (TypeError (''Parameter `url` must be a string or object, not '' @ t)) None)) \<and>
   (u = UrlString str \<and> nonempty (p_auth (urlParseLax L (unix_prefix str))) \<longrightarrow>
      map_sum id promise (got L u opts)
        = Inr (Rejected (Error ''Basic authentication must be done with auth option'') None)) \<and>
   (url_object L u = Inr obj \<and> o_body (assign obj opts) = Some b \<and> check_body (assign obj opts) b = Some e \<longrightarrow>
      map_sum id promise (got L u opts) = Inr (Rejected e None))"
proof -
  have "\<exists>b. got L u opts = Inr b"
    by (cases "normalizeArguments L u opts")
       (auto simp: got_def try_catch_def asPromise_def Let_def split: list.split)
  then show ?thesis
    by (auto simp: got_def try_catch_def normalizeArguments_def url_object_def Let_def
        Promise_reject_def)
qed

theorem got_never_throws_witness:
  "map_sum id promise (got ex_lib (UrlOther ''number'') no_options)
     = Inr (Rejected (TypeError ''Parameter `url` must be a string or object, not number'') None) \<and>
   map_sum id promise (got ex_lib (UrlString ''http://a/'') (no_options\<lparr>o_body := Some BOther\<rparr>))
     = Inr (Rejected
         (TypeError ''options.body must be a ReadableStream, string, Buffer or plain Object'') None)"
proof -
  have a: "url_object ex_lib (UrlString ''http://a/'')
      = Inr (no_options\<lparr>o_protocol := Some ''http:'', o_href := Some ''http://a/'', o_path := Some ''/''\<rparr>)"
    by (simp add: url_object_def unix_prefix_def nonempty_def ex_lib_simps scheme_def Let_def no_options_def)
  have b: "o_body (assign (no_options\<lparr>o_protocol := Some ''http:'', o_href := Some ''http://a/'', o_path := Some ''/''\<rparr>)
      (no_options\<lparr>o_body := Some BOther\<rparr>)) = Some BOther"
    by (simp add: assign_def later_def no_options_def)
  have c: "check_body (assign (no_options\<lparr>o_protocol := Some ''http:'', o_href := Some ''http://a/'', o_path := Some ''/''\<rparr>)
      (no_options\<lparr>o_body := Some BOther\<rparr>)) BOther
        = Some (TypeError ''options.body must be a ReadableStream, string, Buffer or plain Object'')"
    by (simp add: check_body_def assign_def later_def no_options_def flag_def)
  from got_never_throws [where L = ex_lib and u = "UrlOther ''number''" and opts = no_options
      and t = "''number''" and x = "Error []" and str = "[]" and obj = no_options and b = BOther
      and e = "Error []"]
  have 1: "map_sum id promise (got ex_lib (UrlOther ''number'') no_options)
     = Inr (Rejected (TypeError ''Parameter `url` must be a string or object, not number'') None)"
    by simp
  from got_never_throws [where L = ex_lib and u = "UrlString ''http://a/''"
      and opts = "no_options\<lparr>o_body := Some BOther\<rparr>" and t = "[]" and x = "Error []" and str = "[]"
      and obj = "no_options\<lparr>o_protocol := Some ''http:'', o_href := Some ''http://a/'', o_path := Some ''/''\<rparr>"
      and b = BOther
      and e = "TypeError ''options.body must be a ReadableStream, string, Buffer or plain Object''"]
    a b c
  have 2: "map_sum id promise (got ex_lib (UrlString ''http://a/'') (no_options\<lparr>o_body := Some BOther\<rparr>))
     = Inr (Rejected
         (TypeError ''options.body must be a ReadableStream, string, Buffer or plain Object'') None)"
    by blast
  from 1 2 show ?thesis
    by (rule conjI)
qed

end
